theory Spec2Isabelle
  imports Main "HOL-Library.Sublist"
begin

section \<open>The Itanium C++ ABI demangler of \<^verbatim>\<open>demangler.py\<close>\<close>

text \<open>
  The development follows the source file top down: the scan cursor, the AST nodes and
  their printer, the static tables, the regular expressions, the grammar productions and
  the entry point \<^verbatim>\<open>parse\<close>.

  Conventions of the embedding.
  \<^item> Python's \<^verbatim>\<open>None\<close> is a value like any other: it is returned by a production that
    fails, it is tested with \<^verbatim>\<open>is None\<close>, and the source can store it as the child of a
    node. It is the constructor \<open>PyNone\<close> of the node type.
  \<^item> A Python exception that leaves \<^verbatim>\<open>parse\<close> is the left injection of a sum: a production
    returns \<open>Inl e\<close> when it raises \<open>e\<close> and \<open>Inr (result, cursor)\<close> when it returns.
  \<^item> The cursor object holds the text \<^verbatim>\<open>_raw\<close> and the index \<^verbatim>\<open>_pos\<close>. Every method reads
    \<^verbatim>\<open>_raw\<close> from \<^verbatim>\<open>_pos\<close> on only (slices, \<^verbatim>\<open>find\<close> and \<^verbatim>\<open>match\<close> all start at \<^verbatim>\<open>_pos\<close>, and no
    pattern looks behind), and \<^verbatim>\<open>_pos\<close> never exceeds the length of the text. The model
    keeps the unread text \<^verbatim>\<open>_raw[_pos:]\<close>; a method that moves \<^verbatim>\<open>_pos\<close> returns the new
    unread text.
  \<^item> Strings are lists of 8-bit characters; the specification restricts the input to ASCII.
    Python's recursion limit and its limit on the number of digits of an integer literal
    are not modelled: integers and the call stack are unbounded.
\<close>

datatype exn = TypeError | ValueError | KeyError | AttributeError | AssertionError

subsection \<open>The scan cursor\<close>

type_synonym cursor = string

definition at_end :: "cursor \<Rightarrow> bool" where
  "at_end cursor = (cursor = [])"

text \<open>\<^verbatim>\<open>accept\<close> returns the advanced cursor when the text starts with the delimiter, and
  \<open>None\<close> (the cursor is unchanged, Python returns a false value) otherwise.\<close>

definition accept :: "string \<Rightarrow> cursor \<Rightarrow> cursor option" where
  "accept delim cursor =
     (if take (length delim) cursor = delim then Some (drop (length delim) cursor) else None)"

text \<open>\<^verbatim>\<open>advance\<close> returns the Python result (\<open>None\<close> for Python's \<^verbatim>\<open>None\<close>) and the cursor.\<close>

definition advance :: "nat \<Rightarrow> cursor \<Rightarrow> string option \<times> cursor" where
  "advance amount cursor =
     (if amount > length cursor then (None, cursor)
      else (Some (take amount cursor), drop amount cursor))"

text \<open>\<^verbatim>\<open>advance_until\<close>: \<^verbatim>\<open>find\<close> looks for the first occurrence of the delimiter at or after
  the position; the text before it is returned and the cursor moves past the delimiter.\<close>

fun advance_until :: "string \<Rightarrow> cursor \<Rightarrow> (string \<times> cursor) option" where
  "advance_until delim cursor =
     (if take (length delim) cursor = delim then Some ([], drop (length delim) cursor)
      else (case cursor of
              [] \<Rightarrow> None
            | c # cs \<Rightarrow> (case advance_until delim cs of
                          None \<Rightarrow> None
                        | Some (result, cursor') \<Rightarrow> Some (c # result, cursor'))))"

declare advance_until.simps [simp del]

subsection \<open>AST nodes\<close>

text \<open>
  \<^verbatim>\<open>Node(kind, value)\<close>, \<^verbatim>\<open>QualNode('cv_qual', value, qual)\<close> and
  \<^verbatim>\<open>CastNode('literal', value, ty)\<close> with one constructor per kind. A \<^verbatim>\<open>function\<close> node holds
  the pair of its name and its arguments.
\<close>

datatype node =
    PyNone
  | Name string
  | QualName "node list"
  | TplArgs "node list"
  | Ctor string
  | Dtor string
  | Operator string
  | Pointer node
  | LValue node
  | RValue node
  | Function node "node list"
  | TplParam int
  | Vtable node
  | Vtt node
  | Typeinfo node
  | TypeinfoName node
  | CvQual node "string set"
  | Literal string node

subsection \<open>Conversions between integers and text\<close>

definition is_digit :: "char \<Rightarrow> bool" where
  "is_digit c = (c \<in> set ''0123456789'')"

definition digit_value :: "char \<Rightarrow> nat option" where
  "digit_value c =
     (let n = (of_char c :: nat) in
      if 48 \<le> n \<and> n \<le> 57 then Some (n - 48)
      else if 97 \<le> n \<and> n \<le> 122 then Some (n - 87)
      else if 65 \<le> n \<and> n \<le> 90 then Some (n - 55)
      else None)"

text \<open>\<^verbatim>\<open>int(length)\<close> on a text matched by \<^verbatim>\<open>\d+\<close>.\<close>

definition int_decimal :: "string \<Rightarrow> nat" where
  "int_decimal ds = foldl (\<lambda>a c. 10 * a + (of_char c - 48)) 0 ds"

text \<open>The value of a sequence of digits in base 36.\<close>

definition base36_value :: "string \<Rightarrow> nat" where
  "base36_value ds = foldl (\<lambda>a c. 36 * a + (case digit_value c of Some d \<Rightarrow> d | None \<Rightarrow> 0)) 0 ds"

text \<open>The characters that \<^verbatim>\<open>int\<close> strips from both ends: tab, line feed, vertical tab, form
  feed, carriage return, space, and in non-ASCII text NEL and the no-break space.\<close>

definition is_int_space :: "char \<Rightarrow> bool" where
  "is_int_space c = ((of_char c :: nat) \<in> {9, 10, 11, 12, 13, 32, 133, 160})"

text \<open>The digits of an integer literal: not empty, single underscores between digits
  only.\<close>

fun valid_digits :: "string \<Rightarrow> bool" where
  "valid_digits [] = False"
| "valid_digits [c] = (digit_value c \<noteq> None)"
| "valid_digits (c # d # cs) =
     (digit_value c \<noteq> None \<and>
      (if d = CHR ''_'' then cs \<noteq> [] \<and> valid_digits cs else valid_digits (d # cs)))"

text \<open>\<^verbatim>\<open>int(seq_id, 36)\<close>. The argument is the result of \<^verbatim>\<open>advance_until\<close>, which can be
  Python's \<^verbatim>\<open>None\<close>: \<^verbatim>\<open>int\<close> then raises \<^verbatim>\<open>TypeError\<close>. A text that is no literal raises
  \<^verbatim>\<open>ValueError\<close>.\<close>

definition int_base36 :: "string option \<Rightarrow> exn + int" where
  "int_base36 arg =
     (case arg of
        None \<Rightarrow> Inl TypeError
      | Some text \<Rightarrow>
          (let stripped = rev (dropWhile is_int_space (rev (dropWhile is_int_space text)));
               negative = (take 1 stripped = ''-'');
               body = (if take 1 stripped = ''-'' \<or> take 1 stripped = ''+''
                       then drop 1 stripped else stripped)
           in if valid_digits body
              then Inr ((if negative then -1 else 1) *
                        int (base36_value (filter (\<lambda>c. c \<noteq> CHR ''_'') body)))
              else Inl ValueError))"

text \<open>\<^verbatim>\<open>str\<close> of an integer.\<close>

fun str_nat :: "nat \<Rightarrow> string" where
  "str_nat n =
     (if n < 10 then [char_of (48 + n)] else str_nat (n div 10) @ [char_of (48 + n mod 10)])"

declare str_nat.simps [simp del]

definition str_int :: "int \<Rightarrow> string" where
  "str_int i = (if i < 0 then CHR ''-'' # str_nat (nat (- i)) else str_nat (nat i))"

subsection \<open>The printer\<close>

text \<open>
  \<^verbatim>\<open>str\<close> of a node. \<^verbatim>\<open>QualNode.__str__\<close> turns the qualifier set into a list with
  \<^verbatim>\<open>list(self.qual)\<close>: the order in which a Python set of strings is iterated depends on
  the hashes of its elements and is not fixed by the language, so the printer takes the
  iteration order as its parameter \<open>iter\<close>. What Python guarantees of it is
  \<open>set_iteration\<close>: each element of the set is listed exactly once.

  \<^verbatim>\<open>str(None)\<close> is \<^verbatim>\<open>'None'\<close>; reading \<^verbatim>\<open>.kind\<close> of \<^verbatim>\<open>None\<close> raises \<^verbatim>\<open>AttributeError\<close>; a
  constructor or destructor variant outside the table reaches \<^verbatim>\<open>assert False\<close>.
\<close>

definition qualifier_words :: "string list" where
  "qualifier_words = [''restrict'', ''volatile'', ''const'']"

definition set_iteration :: "(string set \<Rightarrow> string list) \<Rightarrow> bool" where
  "set_iteration iter =
     list_all (\<lambda>ws. set (iter (set ws)) = set ws \<and> distinct (iter (set ws)))
       (subseqs qualifier_words)"

fun join :: "string \<Rightarrow> string list \<Rightarrow> string" where
  "join sep [] = []"
| "join sep [x] = x"
| "join sep (x # y # ys) = x @ sep @ join sep (y # ys)"

definition is_tpl_args :: "node \<Rightarrow> bool" where
  "is_tpl_args n = (case n of TplArgs _ \<Rightarrow> True | _ \<Rightarrow> False)"

definition startswith :: "string \<Rightarrow> string \<Rightarrow> bool" where
  "startswith s p = (take (length p) s = p)"

fun str_node :: "(string set \<Rightarrow> string list) \<Rightarrow> node \<Rightarrow> exn + string"
  and str_qual_name :: "(string set \<Rightarrow> string list) \<Rightarrow> node list \<Rightarrow> string \<Rightarrow> exn + string"
  and str_map :: "(string set \<Rightarrow> string list) \<Rightarrow> node list \<Rightarrow> exn + string list"
where
  "str_node iter PyNone = Inr ''None''"
| "str_node iter (Name v) = Inr v"
| "str_node iter (QualName vs) = str_qual_name iter vs []"
| "str_node iter (TplArgs vs) =
     (case str_map iter vs of Inl e \<Rightarrow> Inl e | Inr ss \<Rightarrow> Inr (''<'' @ join '', '' ss @ ''>''))"
| "str_node iter (Ctor v) =
     (if v = ''complete'' then Inr ''{ctor}''
      else if v = ''base'' then Inr ''{base ctor}''
      else if v = ''allocating'' then Inr ''{allocating ctor}''
      else Inl AssertionError)"
| "str_node iter (Dtor v) =
     (if v = ''deleting'' then Inr ''{deleting dtor}''
      else if v = ''complete'' then Inr ''{dtor}''
      else if v = ''base'' then Inr ''{base dtor}''
      else Inl AssertionError)"
| "str_node iter (Operator v) =
     (if startswith v ''new'' \<or> startswith v ''delete'' then Inr (''operator '' @ v)
      else Inr (''operator'' @ v))"
| "str_node iter (Pointer v) =
     (case str_node iter v of Inl e \<Rightarrow> Inl e | Inr s \<Rightarrow> Inr (s @ ''*''))"
| "str_node iter (LValue v) =
     (case str_node iter v of Inl e \<Rightarrow> Inl e | Inr s \<Rightarrow> Inr (s @ ''&''))"
| "str_node iter (RValue v) =
     (case str_node iter v of Inl e \<Rightarrow> Inl e | Inr s \<Rightarrow> Inr (s @ ''&&''))"
| "str_node iter (Function name args) =
     (if args = [Name ''void'']
      then (case str_node iter name of Inl e \<Rightarrow> Inl e | Inr s \<Rightarrow> Inr (s @ ''()''))
      else (case str_node iter name of
              Inl e \<Rightarrow> Inl e
            | Inr s \<Rightarrow> (case str_map iter args of
                          Inl e \<Rightarrow> Inl e
                        | Inr ss \<Rightarrow> Inr (s @ ''('' @ join '', '' ss @ '')''))))"
| "str_node iter (TplParam v) = Inr (''{T'' @ str_int v @ ''}'')"
| "str_node iter (Vtable v) =
     (case str_node iter v of Inl e \<Rightarrow> Inl e | Inr s \<Rightarrow> Inr (''vtable for '' @ s))"
| "str_node iter (Vtt v) =
     (case str_node iter v of Inl e \<Rightarrow> Inl e | Inr s \<Rightarrow> Inr (''vtt for '' @ s))"
| "str_node iter (Typeinfo v) =
     (case str_node iter v of Inl e \<Rightarrow> Inl e | Inr s \<Rightarrow> Inr (''typeinfo for '' @ s))"
| "str_node iter (TypeinfoName v) =
     (case str_node iter v of Inl e \<Rightarrow> Inl e | Inr s \<Rightarrow> Inr (''typeinfo name for '' @ s))"
| "str_node iter (CvQual v qual) =
     (case str_node iter v of Inl e \<Rightarrow> Inl e | Inr s \<Rightarrow> Inr (join '' '' (s # iter qual)))"
| "str_node iter (Literal v ty) =
     (case str_node iter ty of Inl e \<Rightarrow> Inl e | Inr s \<Rightarrow> Inr (''('' @ s @ '')'' @ v))"
| "str_qual_name iter [] result = Inr result"
| "str_qual_name iter (n # ns) result =
     (if result \<noteq> [] \<and> n = PyNone then Inl AttributeError
      else (case str_node iter n of
              Inl e \<Rightarrow> Inl e
            | Inr s \<Rightarrow>
                str_qual_name iter ns
                  ((if result \<noteq> [] \<and> \<not> is_tpl_args n then result @ ''::'' else result) @ s)))"
| "str_map iter [] = Inr []"
| "str_map iter (n # ns) =
     (case str_node iter n of
        Inl e \<Rightarrow> Inl e
      | Inr s \<Rightarrow> (case str_map iter ns of Inl e \<Rightarrow> Inl e | Inr ss \<Rightarrow> Inr (s # ss)))"

subsection \<open>The static tables\<close>

definition dict_get :: "('k \<times> 'v) list \<Rightarrow> 'k \<Rightarrow> exn + 'v" where
  "dict_get d k = (case map_of d k of None \<Rightarrow> Inl KeyError | Some v \<Rightarrow> Inr v)"

definition ctor_dtor_map :: "(string \<times> string) list" where
  "ctor_dtor_map =
     [(''C1'', ''complete''), (''C2'', ''base''), (''C3'', ''allocating''),
      (''D0'', ''deleting''), (''D1'', ''complete''), (''D2'', ''base'')]"

definition std_names :: "(string \<times> node list) list" where
  "std_names =
     [(''St'', [Name ''std'']),
      (''Sa'', [Name ''std'', Name ''allocator'']),
      (''Sb'', [Name ''std'', Name ''basic_string'']),
      (''Ss'', [Name ''std'', Name ''string'']),
      (''Si'', [Name ''std'', Name ''istream'']),
      (''So'', [Name ''std'', Name ''ostream'']),
      (''Sd'', [Name ''std'', Name ''iostream''])]"

definition operators :: "(string \<times> string) list" where
  "operators =
     [(''nw'', ''new''), (''na'', ''new[]''), (''dl'', ''delete''), (''da'', ''delete[]''),
      (''ps'', ''+''), (''ng'', ''-''), (''ad'', ''&''), (''de'', ''*''), (''co'', ''~''),
      (''pl'', ''+''), (''mi'', ''-''), (''ml'', ''*''), (''dv'', ''/''), (''rm'', ''%''),
      (''an'', ''&''), (''or'', ''|''), (''eo'', ''^''), (''aS'', ''=''), (''pL'', ''+=''),
      (''mI'', ''-=''), (''mL'', ''*=''), (''dV'', ''/=''), (''rM'', ''%=''), (''aN'', ''&=''),
      (''oR'', ''|=''), (''eO'', ''^=''), (''ls'', ''<<''), (''rs'', ''>>''), (''lS'', ''<<=''),
      (''rS'', ''>>=''), (''eq'', ''==''), (''ne'', ''!=''), (''lt'', ''<''), (''gt'', ''>''),
      (''le'', ''<=''), (''ge'', ''>=''), (''nt'', ''!''), (''aa'', ''&&''), (''oo'', ''||''),
      (''pp'', ''++''), (''mm'', ''--''), (''cm'', '',''), (''pm'', ''->*''), (''pt'', ''->''),
      (''cl'', ''()''), (''ix'', ''[]''), (''qu'', ''?'')]"

definition builtin_types :: "(string \<times> string) list" where
  "builtin_types =
     [(''v'', ''void''), (''w'', ''wchar_t''), (''b'', ''bool''), (''c'', ''char''),
      (''a'', ''signed char''), (''h'', ''unsigned char''), (''s'', ''short''),
      (''t'', ''unsigned short''), (''i'', ''int''), (''j'', ''unsigned int''),
      (''l'', ''long''), (''m'', ''unsigned long''), (''x'', ''long long''),
      (''y'', ''unsigned long long''), (''n'', ''__int128''), (''o'', ''unsigned __int128''),
      (''f'', ''float''), (''d'', ''double''), (''e'', ''__float80''), (''g'', ''__float128''),
      (''z'', ''...''), (''Di'', ''char32_t''), (''Ds'', ''char16_t''), (''Da'', ''auto'')]"

subsection \<open>Qualifiers and indirections\<close>

definition handle_cv :: "string \<Rightarrow> node \<Rightarrow> node" where
  "handle_cv qualifiers node =
     (let qualifier_set =
            (if CHR ''r'' \<in> set qualifiers then {''restrict''} else {}) \<union>
            (if CHR ''V'' \<in> set qualifiers then {''volatile''} else {}) \<union>
            (if CHR ''K'' \<in> set qualifiers then {''const''} else {})
      in if qualifier_set \<noteq> {} then CvQual node qualifier_set else node)"

definition handle_indirect :: "string \<Rightarrow> node \<Rightarrow> node" where
  "handle_indirect qualifier node =
     (if qualifier = ''P'' then Pointer node
      else if qualifier = ''R'' then LValue node
      else if qualifier = ''O'' then RValue node
      else node)"

subsection \<open>The regular expressions\<close>

text \<open>
  Each compiled pattern is a function from the unread text to the alternative that
  matched, with its captured groups, and the text after the match; \<open>None\<close> when no
  alternative matches (the cursor then stays where it is). The alternatives are tried in
  the order of the pattern, and the repetitions are greedy.
\<close>

definition one_of :: "string \<Rightarrow> string \<Rightarrow> bool" where
  "one_of cs s = (s \<noteq> [] \<and> hd s \<in> set cs)"

definition is_cv_letter :: "char \<Rightarrow> bool" where
  "is_cv_letter c = (c \<in> set ''rVK'')"

datatype name_match =
    Source_name string
  | Ctor_name string
  | Dtor_name string
  | Std_name string
  | Operator_name string
  | Std_prefix
  | Nested_name string string
  | Template_args

definition NAME_RE :: "string \<Rightarrow> (name_match \<times> cursor) option" where
  "NAME_RE s =
     (if takeWhile is_digit s \<noteq> []
        then Some (Source_name (takeWhile is_digit s), dropWhile is_digit s)
      else if take 1 s = ''C'' \<and> one_of ''123'' (drop 1 s)
        then Some (Ctor_name (take 2 s), drop 2 s)
      else if take 1 s = ''D'' \<and> one_of ''012'' (drop 1 s)
        then Some (Dtor_name (take 2 s), drop 2 s)
      else if take 1 s = ''S'' \<and> one_of ''absiod'' (drop 1 s)
        then Some (Std_name (take 2 s), drop 2 s)
      else if take 2 s \<in> set (map fst operators)
        then Some (Operator_name (take 2 s), drop 2 s)
      else if take 2 s = ''St''
        then Some (Std_prefix, drop 2 s)
      else if take 1 s = ''N''
        then (let cv_qual = takeWhile is_cv_letter (drop 1 s);
                  s' = dropWhile is_cv_letter (drop 1 s);
                  ref_qual = (if one_of ''RO'' s' then take 1 s' else [])
              in Some (Nested_name cv_qual ref_qual, drop (length ref_qual) s'))
      else if take 1 s = ''I''
        then Some (Template_args, drop 1 s)
      else None)"

datatype type_match =
    Builtin_type string
  | Qualified_type string
  | Template_param
  | Indirect_type string
  | Expr_primary

definition TYPE_RE :: "string \<Rightarrow> (type_match \<times> cursor) option" where
  "TYPE_RE s =
     (if one_of ''vwbcahstijlmxynofdegz'' s
        then Some (Builtin_type (take 1 s), drop 1 s)
      else if take 2 s \<in> set [''Dd'', ''De'', ''Df'', ''Dh'', ''DF'', ''Di'', ''Ds'', ''Da'', ''Dc'', ''Dn'']
        then Some (Builtin_type (take 2 s), drop 2 s)
      else if one_of ''rVK'' s
        then Some (Qualified_type (takeWhile is_cv_letter s), dropWhile is_cv_letter s)
      else if take 1 s = ''T''
        then Some (Template_param, drop 1 s)
      else if one_of ''PRO'' s
        then Some (Indirect_type (take 1 s), drop 1 s)
      else if take 1 s = ''L''
        then Some (Expr_primary, s)
      else None)"

datatype expr_primary_match = Mangled_name | Literal_value

definition EXPR_PRIMARY_RE :: "string \<Rightarrow> (expr_primary_match \<times> cursor) option" where
  "EXPR_PRIMARY_RE s =
     (if take 1 s = ''L'' \<and> take 2 (drop 1 s) = ''_Z'' then Some (Mangled_name, drop 1 s)
      else if take 1 s = ''L'' then Some (Literal_value, drop 1 s)
      else None)"

text \<open>The match of \<^verbatim>\<open>_SPECIAL_RE\<close> is the group \<^verbatim>\<open>kind\<close>.\<close>

definition SPECIAL_RE :: "string \<Rightarrow> (string \<times> cursor) option" where
  "SPECIAL_RE s =
     (if take 1 s = ''T'' \<and> one_of ''VTIS'' (drop 1 s) then Some (take 1 (drop 1 s), drop 2 s)
      else None)"

definition MANGLED_NAME_RE :: "string \<Rightarrow> cursor option" where
  "MANGLED_NAME_RE s = (if take 2 s = ''_Z'' then Some (drop 2 s) else None)"

subsection \<open>The grammar productions\<close>

definition parse_source_name :: "cursor \<Rightarrow> string \<Rightarrow> node \<times> cursor" where
  "parse_source_name cursor length_text =
     (let name_len = int_decimal length_text in
      case advance name_len cursor of
        (None, cursor') \<Rightarrow> (PyNone, cursor')
      | (Some name, cursor') \<Rightarrow> (Name name, cursor'))"

text \<open>
  \<^verbatim>\<open>_parse_name\<close> is a chain of \<^verbatim>\<open>if\<close>/\<^verbatim>\<open>elif\<close> on the group that matched, which sets
  \<^verbatim>\<open>node\<close>, followed by the test \<^verbatim>\<open>node is None\<close> and the optional template arguments. The
  chain is \<open>parse_name_dispatch\<close>, applied to the match and the cursor after it; the rest
  is \<open>parse_name\<close>.

  \<^verbatim>\<open>_parse_until_end(cursor, kind, fn)\<close> is called with the kinds \<^verbatim>\<open>'qual_name'\<close> and
  \<^verbatim>\<open>'tpl_args'\<close> and the productions \<^verbatim>\<open>_parse_name\<close> and \<^verbatim>\<open>_parse_type\<close>; both arguments are
  tags here, since the productions are mutually recursive with it. The accumulator
  \<open>nodes\<close> is the list the loop appends to. The loop over the argument types in
  \<^verbatim>\<open>_parse_mangled_name\<close> is the function \<open>parse_arg_types\<close>; its result \<open>None\<close> is the
  \<^verbatim>\<open>return None\<close> inside the loop.
\<close>

datatype list_kind = Kind_qual_name | Kind_tpl_args

datatype production = Fn_parse_name | Fn_parse_type

definition list_node :: "list_kind \<Rightarrow> node list \<Rightarrow> node" where
  "list_node kind nodes = (case kind of Kind_qual_name \<Rightarrow> QualName nodes | Kind_tpl_args \<Rightarrow> TplArgs nodes)"

definition std_prefixed :: "node \<Rightarrow> node" where
  "std_prefixed name =
     (case name of
        QualName value \<Rightarrow> QualName ([Name ''std''] @ value)
      | _ \<Rightarrow> QualName [Name ''std'', name])"

definition special_node :: "string \<Rightarrow> node \<Rightarrow> node" where
  "special_node kind name =
     (if kind = ''V'' then Vtable name
      else if kind = ''T'' then Vtt name
      else if kind = ''I'' then Typeinfo name
      else if kind = ''S'' then TypeinfoName name
      else PyNone)"

function
  parse_name :: "cursor \<Rightarrow> exn + node \<times> cursor" and
  parse_name_dispatch :: "name_match \<Rightarrow> cursor \<Rightarrow> exn + node \<times> cursor" and
  parse_type :: "cursor \<Rightarrow> exn + node \<times> cursor" and
  parse_expr_primary :: "cursor \<Rightarrow> exn + node \<times> cursor" and
  parse_special :: "cursor \<Rightarrow> exn + node \<times> cursor" and
  parse_mangled_name :: "cursor \<Rightarrow> exn + node \<times> cursor" and
  parse_arg_types :: "cursor \<Rightarrow> node list \<Rightarrow> exn + node list option \<times> cursor" and
  parse_until_end :: "list_kind \<Rightarrow> production \<Rightarrow> cursor \<Rightarrow> node list \<Rightarrow> exn + node \<times> cursor"
where
  "parse_name cursor =
     (case NAME_RE cursor of
        None \<Rightarrow> Inr (PyNone, cursor)
      | Some (m, c1) \<Rightarrow>
          (case parse_name_dispatch m c1 of
             Inl e \<Rightarrow> Inl e
           | Inr (node, c2) \<Rightarrow>
               if node = PyNone then Inr (PyNone, c2)
               else (case accept ''I'' c2 of
                       None \<Rightarrow> Inr (node, c2)
                     | Some c3 \<Rightarrow>
                         (case parse_until_end Kind_tpl_args Fn_parse_type c3 [] of
                            Inl e \<Rightarrow> Inl e
                          | Inr (templ_args, c4) \<Rightarrow>
                              if templ_args = PyNone then Inr (PyNone, c4)
                              else Inr (QualName [node, templ_args], c4)))))"
| "parse_name_dispatch m cursor =
     (case m of
        Source_name length_text \<Rightarrow> Inr (parse_source_name cursor length_text)
      | Ctor_name k \<Rightarrow>
          (case dict_get ctor_dtor_map k of Inl e \<Rightarrow> Inl e | Inr v \<Rightarrow> Inr (Ctor v, cursor))
      | Dtor_name k \<Rightarrow>
          (case dict_get ctor_dtor_map k of Inl e \<Rightarrow> Inl e | Inr v \<Rightarrow> Inr (Dtor v, cursor))
      | Std_name k \<Rightarrow>
          (case dict_get std_names k of Inl e \<Rightarrow> Inl e | Inr v \<Rightarrow> Inr (QualName v, cursor))
      | Operator_name k \<Rightarrow>
          (case dict_get operators k of Inl e \<Rightarrow> Inl e | Inr v \<Rightarrow> Inr (Operator v, cursor))
      | Std_prefix \<Rightarrow>
          (case parse_name cursor of
             Inl e \<Rightarrow> Inl e
           | Inr (name, c1) \<Rightarrow>
               if name = PyNone then Inr (PyNone, c1) else Inr (std_prefixed name, c1))
      | Nested_name cv_qual ref_qual \<Rightarrow>
          (case parse_until_end Kind_qual_name Fn_parse_name cursor [] of
             Inl e \<Rightarrow> Inl e
           | Inr (node, c1) \<Rightarrow> Inr (handle_indirect ref_qual (handle_cv cv_qual node), c1))
      | Template_args \<Rightarrow> parse_until_end Kind_tpl_args Fn_parse_type cursor [])"
| "parse_type cursor =
     (case TYPE_RE cursor of
        None \<Rightarrow> parse_name cursor
      | Some (m, c1) \<Rightarrow>
          (case m of
             Builtin_type k \<Rightarrow>
               (case dict_get builtin_types k of Inl e \<Rightarrow> Inl e | Inr v \<Rightarrow> Inr (Name v, c1))
           | Qualified_type qualifiers \<Rightarrow>
               (case parse_type c1 of
                  Inl e \<Rightarrow> Inl e
                | Inr (ty, c2) \<Rightarrow>
                    if ty = PyNone then Inr (PyNone, c2) else Inr (handle_cv qualifiers ty, c2))
           | Template_param \<Rightarrow>
               (case advance_until ''_'' c1 of
                  None \<Rightarrow> (case int_base36 None of Inl e \<Rightarrow> Inl e | Inr v \<Rightarrow> Inr (TplParam (1 + v), c1))
                | Some (seq_id, c2) \<Rightarrow>
                    if seq_id = [] then Inr (TplParam 0, c2)
                    else (case int_base36 (Some seq_id) of
                            Inl e \<Rightarrow> Inl e
                          | Inr v \<Rightarrow> Inr (TplParam (1 + v), c2)))
           | Indirect_type qualifier \<Rightarrow>
               (case parse_type c1 of
                  Inl e \<Rightarrow> Inl e
                | Inr (ty, c2) \<Rightarrow>
                    if ty = PyNone then Inr (PyNone, c2) else Inr (handle_indirect qualifier ty, c2))
           | Expr_primary \<Rightarrow> parse_expr_primary c1))"
| "parse_expr_primary cursor =
     (case EXPR_PRIMARY_RE cursor of
        None \<Rightarrow> Inr (PyNone, cursor)
      | Some (m, c1) \<Rightarrow>
          (case m of
             Mangled_name \<Rightarrow>
               (case advance_until ''E'' c1 of
                  None \<Rightarrow> Inl TypeError
                | Some (mangled_name, c2) \<Rightarrow>
                    (case parse_mangled_name mangled_name of
                       Inl e \<Rightarrow> Inl e
                     | Inr (node, inner) \<Rightarrow> Inr (node, c2)))
           | Literal_value \<Rightarrow>
               (case parse_type c1 of
                  Inl e \<Rightarrow> Inl e
                | Inr (ty, c2) \<Rightarrow>
                    if ty = PyNone then Inr (PyNone, c2)
                    else (case advance_until ''E'' c2 of
                            None \<Rightarrow> Inr (PyNone, c2)
                          | Some (v, c3) \<Rightarrow> Inr (Literal v ty, c3)))))"
| "parse_special cursor =
     (case SPECIAL_RE cursor of
        None \<Rightarrow> Inr (PyNone, cursor)
      | Some (kind, c1) \<Rightarrow>
          (case parse_type c1 of
             Inl e \<Rightarrow> Inl e
           | Inr (name, c2) \<Rightarrow>
               if name = PyNone then Inr (PyNone, c2) else Inr (special_node kind name, c2)))"
| "parse_mangled_name cursor =
     (case MANGLED_NAME_RE cursor of
        None \<Rightarrow> Inr (PyNone, cursor)
      | Some c1 \<Rightarrow>
          (case parse_special c1 of
             Inl e \<Rightarrow> Inl e
           | Inr (special, c2) \<Rightarrow>
               if special \<noteq> PyNone then Inr (special, c2)
               else (case parse_name c2 of
                       Inl e \<Rightarrow> Inl e
                     | Inr (name, c3) \<Rightarrow>
                         if name = PyNone then Inr (PyNone, c3)
                         else (case parse_arg_types c3 [] of
                                 Inl e \<Rightarrow> Inl e
                               | Inr (None, c4) \<Rightarrow> Inr (PyNone, c4)
                               | Inr (Some arg_types, c4) \<Rightarrow>
                                   if arg_types \<noteq> [] then Inr (Function name arg_types, c4)
                                   else Inr (name, c4)))))"
| "parse_arg_types cursor arg_types =
     (if at_end cursor then Inr (Some arg_types, cursor)
      else (case parse_type cursor of
              Inl e \<Rightarrow> Inl e
            | Inr (arg_type, c1) \<Rightarrow>
                if arg_type = PyNone then Inr (None, c1)
                else parse_arg_types c1 (arg_types @ [arg_type])))"
| "parse_until_end kind fn cursor nodes =
     (case accept ''E'' cursor of
        Some c1 \<Rightarrow> Inr (list_node kind nodes, c1)
      | None \<Rightarrow>
          (case (case fn of Fn_parse_name \<Rightarrow> parse_name cursor | Fn_parse_type \<Rightarrow> parse_type cursor) of
             Inl e \<Rightarrow> Inl e
           | Inr (node, c1) \<Rightarrow>
               if node = PyNone \<or> at_end c1 then Inr (PyNone, c1)
               else parse_until_end kind fn c1 (nodes @ [node])))"
  by pat_completeness auto

subsection \<open>What the cursor methods and the patterns consume\<close>

lemma suffix_dropI: "suffix a b \<Longrightarrow> suffix (drop n a) b"
  using suffix_drop suffix_order.trans by blast

lemma suffix_dropWhileI: "suffix a b \<Longrightarrow> suffix (dropWhile P a) b"
  using suffix_dropWhile suffix_order.trans by blast

lemma take_Suc0_eq: "take (Suc 0) s = [c] \<longleftrightarrow> (\<exists>r. s = c # r)"
  by (cases s) auto

lemma dropWhile_shorter: "takeWhile P s \<noteq> [] \<Longrightarrow> length (dropWhile P s) < length s"
  by (induction s) (auto split: if_splits simp: le_imp_less_Suc length_dropWhile_le)

lemma operator_code_nonempty: "take 2 s \<in> set (map fst operators) \<Longrightarrow> s \<noteq> []"
  by (auto simp: operators_def)

lemma NAME_RE_suffix: "NAME_RE s = Some (m, c1) \<Longrightarrow> suffix c1 s"
  by (auto simp: NAME_RE_def Let_def split: if_splits
           intro!: suffix_dropI suffix_dropWhileI)

lemma NAME_RE_nonempty: "NAME_RE s = Some (m, c1) \<Longrightarrow> s \<noteq> []"
  by (auto simp: NAME_RE_def Let_def operators_def split: if_splits)

lemma NAME_RE_shorter: "NAME_RE s = Some (m, c1) \<Longrightarrow> length c1 < length s"
proof -
  assume a: "NAME_RE s = Some (m, c1)"
  then have ne: "s \<noteq> []" by (rule NAME_RE_nonempty)
  then have d2: "length (drop 2 s) < length s" and d1: "length (drop 1 s) < length s"
    by (cases s; simp)+
  have n: "length (drop k (dropWhile P (drop 1 s))) < length s" for k P
    using d1 length_dropWhile_le [of P "drop 1 s"] by simp
  note n0 = n [of 0, simplified]
  from a show ?thesis
    unfolding NAME_RE_def Let_def
    using d2 d1 n n0 dropWhile_shorter [of is_digit s]
    by (auto split: if_splits)
qed


lemma take_eq_append: "take n s = p \<Longrightarrow> s = p @ drop n s"
  by (metis append_take_drop_id)

lemma accept_Some: "accept delim cursor = Some c \<Longrightarrow> cursor = delim @ c"
  by (auto simp: accept_def split: if_splits dest: take_eq_append)

lemma advance_until_Some:
  "advance_until delim cursor = Some (t, r) \<Longrightarrow> cursor = t @ delim @ r"
proof (induction cursor arbitrary: t)
  case Nil
  then show ?case by (subst (asm) advance_until.simps) (auto split: if_splits)
next
  case (Cons c cs)
  show ?case
  proof (cases "take (length delim) (c # cs) = delim")
    case True
    with Cons.prems have "t = []" "r = drop (length delim) (c # cs)"
      by (subst (asm) advance_until.simps, simp)+
    with True show ?thesis by (metis append_Nil append_take_drop_id)
  next
    case False
    with Cons.prems obtain t' where "advance_until delim cs = Some (t', r)" "t = c # t'"
      by (subst (asm) advance_until.simps) (auto split: option.splits)
    with Cons.IH show ?thesis by simp
  qed
qed

lemma advance_until_suffix: "advance_until delim cursor = Some (t, r) \<Longrightarrow> suffix r cursor"
  by (drule advance_until_Some) (auto simp: suffix_def)

lemma advance_until_text_shorter:
  "advance_until [d] cursor = Some (t, r) \<Longrightarrow> length t < length cursor"
  by (drule advance_until_Some) simp

lemma advance_until_rest_shorter:
  "advance_until [d] cursor = Some (t, r) \<Longrightarrow> length r < length cursor"
  by (drule advance_until_Some) simp

lemma TYPE_RE_suffix: "TYPE_RE s = Some (m, c1) \<Longrightarrow> suffix c1 s"
  by (auto simp: TYPE_RE_def split: if_splits intro!: suffix_dropI suffix_dropWhileI)

lemma TYPE_RE_nonempty: "TYPE_RE s = Some (m, c1) \<Longrightarrow> s \<noteq> []"
  by (auto simp: TYPE_RE_def one_of_def split: if_splits)

lemma TYPE_RE_shorter:
  "TYPE_RE s = Some (m, c1) \<Longrightarrow> m \<noteq> Expr_primary \<Longrightarrow> length c1 < length s"
proof -
  assume a: "TYPE_RE s = Some (m, c1)" and b: "m \<noteq> Expr_primary"
  from a have ne: "s \<noteq> []" by (rule TYPE_RE_nonempty)
  then have d2: "length (drop 2 s) < length s" and d1: "length (drop 1 s) < length s"
    by (cases s; simp)+
  have w: "one_of ''rVK'' s \<Longrightarrow> length (dropWhile is_cv_letter s) < length s"
    by (rule dropWhile_shorter) (cases s; auto simp: one_of_def is_cv_letter_def)
  from a b show ?thesis
    unfolding TYPE_RE_def
    using d2 d1 w
    by (auto split: if_splits)
qed

lemma TYPE_RE_Expr_primary: "TYPE_RE s = Some (Expr_primary, c1) \<Longrightarrow> c1 = s \<and> take 1 s = ''L''"
  by (auto simp: TYPE_RE_def split: if_splits)

lemma EXPR_PRIMARY_RE_Some:
  "EXPR_PRIMARY_RE s = Some (m, c1) \<Longrightarrow> s = CHR ''L'' # c1"
  by (auto simp: EXPR_PRIMARY_RE_def take_Suc0_eq split: if_splits)

lemma EXPR_PRIMARY_RE_None: "take 1 s = ''L'' \<Longrightarrow> EXPR_PRIMARY_RE s \<noteq> None"
  by (auto simp: EXPR_PRIMARY_RE_def)

lemma SPECIAL_RE_Some: "SPECIAL_RE s = Some (k, c1) \<Longrightarrow> suffix c1 s \<and> length c1 < length s"
  by (auto simp: SPECIAL_RE_def take_Suc0_eq suffix_ConsI suffix_drop split: if_splits)

lemma MANGLED_NAME_RE_Some: "MANGLED_NAME_RE s = Some c1 \<Longrightarrow> s = ''_Z'' @ c1"
  by (auto simp: MANGLED_NAME_RE_def split: if_splits dest: take_eq_append)

lemma parse_source_name_suffix: "parse_source_name c l = (n, r) \<Longrightarrow> suffix r c"
  by (auto simp: parse_source_name_def advance_def Let_def suffix_drop split: if_splits)

subsection \<open>Termination of the productions\<close>

text \<open>
  A production that returns leaves a suffix of the text it was given, and a production
  that returns a node has read at least one character. This is first shown wherever the
  productions are defined, and gives their termination: the loops of \<open>parse_until_end\<close>
  and \<open>parse_arg_types\<close> go on only after a node was returned.
\<close>

abbreviation (input) parse_dom where
  "parse_dom \<equiv> parse_name_parse_name_dispatch_parse_type_parse_expr_primary_parse_special_parse_mangled_name_parse_arg_types_parse_until_end_dom"

definition within :: "cursor \<Rightarrow> exn + 'a \<times> cursor \<Rightarrow> bool" where
  "within c res = (case res of Inl e \<Rightarrow> True | Inr (n, r) \<Rightarrow> suffix r c)"

definition consumes :: "cursor \<Rightarrow> exn + node \<times> cursor \<Rightarrow> bool" where
  "consumes c res = (case res of Inl e \<Rightarrow> True | Inr (n, r) \<Rightarrow> suffix r c \<and> (n \<noteq> PyNone \<longrightarrow> r \<noteq> c))"

lemma within_simps [simp]:
  "within c (Inl e)"
  "within c (Inr (n, r)) = suffix r c"
  by (simp_all add: within_def)

lemma consumes_simps [simp]:
  "consumes c (Inl e)"
  "consumes c (Inr (n, r)) = (suffix r c \<and> (n \<noteq> PyNone \<longrightarrow> r \<noteq> c))"
  by (simp_all add: consumes_def)

lemma consumes_within: "consumes c res \<Longrightarrow> within c res"
  by (cases res) auto

lemma suffix_neq: "suffix r c1 \<Longrightarrow> length c1 < length c \<Longrightarrow> r \<noteq> c"
  by (auto dest: suffix_length_le)

lemma within_step:
  assumes "within c1 res" and "suffix c1 c"
  shows "within c res"
proof (cases res)
  case (Inr b)
  obtain n r where b: "b = (n, r)" by (cases b)
  from assms(1) Inr b have "suffix r c1" by simp
  then have "suffix r c" using assms(2) by (rule suffix_order.trans)
  then show ?thesis using Inr b by simp
qed simp

lemma consumes_step:
  assumes "within c1 res" and "suffix c1 c" and "length c1 < length c"
  shows "consumes c res"
proof (cases res)
  case (Inr b)
  obtain n r where b: "b = (n, r)" by (cases b)
  from assms(1) Inr b have r: "suffix r c1" by simp
  then have "suffix r c" using assms(2) by (rule suffix_order.trans)
  moreover have "r \<noteq> c" using r assms(3) by (rule suffix_neq)
  ultimately show ?thesis using Inr b by simp
qed simp

lemma parse_consumes_dom:
  shows "parse_dom (Inl (Inl (Inl c))) \<Longrightarrow> consumes c (parse_name c)"
    and "parse_dom (Inl (Inl (Inr (m, c)))) \<Longrightarrow> within c (parse_name_dispatch m c)"
    and "parse_dom (Inl (Inr (Inl c))) \<Longrightarrow> consumes c (parse_type c)"
    and "parse_dom (Inl (Inr (Inr c))) \<Longrightarrow> consumes c (parse_expr_primary c)"
    and "parse_dom (Inr (Inl (Inl c))) \<Longrightarrow> consumes c (parse_special c)"
    and "parse_dom (Inr (Inl (Inr c))) \<Longrightarrow> consumes c (parse_mangled_name c)"
    and "parse_dom (Inr (Inr (Inl (c, a)))) \<Longrightarrow> within c (parse_arg_types c a)"
    and "parse_dom (Inr (Inr (Inr (k, f, c, ns)))) \<Longrightarrow> consumes c (parse_until_end k f c ns)"
proof (induction rule: parse_name_parse_name_dispatch_parse_type_parse_expr_primary_parse_special_parse_mangled_name_parse_arg_types_parse_until_end.pinduct)
  case (1 cursor)
  show ?case
  proof (cases "NAME_RE cursor")
    case None
    then show ?thesis by (simp add: parse_name.psimps [OF 1(1)])
  next
    case (Some x2)
    obtain m c1 where x2: "x2 = (m, c1)" by (cases x2)
    note re = Some [unfolded x2]
    note s1 = NAME_RE_suffix [OF re] and l1 = NAME_RE_shorter [OF re]
    have w: "within c1 (parse_name_dispatch m c1)" by (rule 1(2) [OF re refl])
    show ?thesis
    proof (cases "parse_name_dispatch m c1")
      case (Inl e)
      then show ?thesis by (simp add: parse_name.psimps [OF 1(1)] re)
    next
      case (Inr b)
      obtain node c2 where b: "b = (node, c2)" by (cases b)
      note d = Inr [unfolded b]
      from w d have s2: "suffix c2 c1" by simp
      have s2': "suffix c2 cursor" using s2 s1 by (rule suffix_order.trans)
      have n2: "c2 \<noteq> cursor" using s2 l1 by (rule suffix_neq)
      show ?thesis
      proof (cases "node = PyNone")
        case True
        then show ?thesis by (simp add: parse_name.psimps [OF 1(1)] re d s2')
      next
        case False
        show ?thesis
        proof (cases "accept ''I'' c2")
          case None
          then show ?thesis using False by (simp add: parse_name.psimps [OF 1(1)] re d s2' n2)
        next
          case (Some c3)
          have c: "consumes c3 (parse_until_end Kind_tpl_args Fn_parse_type c3 [])"
            by (rule 1(3) [OF re refl d refl False Some])
          from accept_Some [OF Some] have s3: "suffix c3 c2" by (simp add: suffix_def)
          have s3': "suffix c3 cursor" using s3 s2' by (rule suffix_order.trans)
          have l3: "length c3 < length cursor"
            using accept_Some [OF Some] suffix_length_le [OF s2] l1 by simp
          have "consumes cursor (parse_until_end Kind_tpl_args Fn_parse_type c3 [])"
            using consumes_within [OF c] s3' l3 by (rule consumes_step)
          then show ?thesis using False Some
            by (auto simp: parse_name.psimps [OF 1(1)] re d split: sum.splits)
        qed
      qed
    qed
  qed
next
  case (2 m cursor)
  note eq = parse_name_dispatch.psimps [OF 2(1)]
  show ?case
  proof (cases m)
    case (Source_name l)
    show ?thesis unfolding eq using Source_name
      by (cases "parse_source_name cursor l") (simp add: parse_source_name_suffix)
  next
    case Std_prefix
    from consumes_within [OF 2(2) [OF this]] show ?thesis unfolding eq using Std_prefix
      by (auto split: sum.splits)
  next
    case (Nested_name cv rf)
    from consumes_within [OF 2(3) [OF this]] show ?thesis unfolding eq using Nested_name
      by (auto split: sum.splits)
  next
    case Template_args
    from consumes_within [OF 2(4) [OF this]] show ?thesis unfolding eq using Template_args
      by (auto simp: within_def split: sum.splits)
  next
    case (Ctor_name k)
    show ?thesis unfolding eq using Ctor_name by (auto split: sum.splits)
  next
    case (Dtor_name k)
    show ?thesis unfolding eq using Dtor_name by (auto split: sum.splits)
  next
    case (Std_name k)
    show ?thesis unfolding eq using Std_name by (auto split: sum.splits)
  next
    case (Operator_name k)
    show ?thesis unfolding eq using Operator_name by (auto split: sum.splits)
  qed
next
  case (3 cursor)
  show ?case
  proof (cases "TYPE_RE cursor")
    case None
    from 3(2) [OF None] show ?thesis using None by (simp add: parse_type.psimps [OF 3(1)])
  next
    case (Some x2)
    obtain m c1 where x2: "x2 = (m, c1)" by (cases x2)
    note re = Some [unfolded x2]
    note s1 = TYPE_RE_suffix [OF re]
    show ?thesis
    proof (cases m)
      case (Builtin_type k)
      with TYPE_RE_shorter [OF re] s1 show ?thesis
        by (auto simp: parse_type.psimps [OF 3(1)] re split: sum.splits)
    next
      case (Qualified_type q)
      with TYPE_RE_shorter [OF re] have l1: "length c1 < length cursor" by simp
      have "consumes cursor (parse_type c1)"
        using consumes_within [OF 3(3) [OF re refl Qualified_type]] s1 l1 by (rule consumes_step)
      then show ?thesis using Qualified_type
        by (auto simp: parse_type.psimps [OF 3(1)] re split: sum.splits)
    next
      case Template_param
      with TYPE_RE_shorter [OF re] have l1: "length c1 < length cursor" by simp
      have "within c1 (Inr (n, r) :: exn + node \<times> cursor)" if "advance_until ''_'' c1 = Some (t, r)" for n t r
        using advance_until_suffix [OF that] by simp
      then have "consumes cursor (Inr (n, r))" if "advance_until ''_'' c1 = Some (t, r)" for n t r
        using that s1 l1 consumes_step by blast
      then show ?thesis using Template_param
        by (auto simp: parse_type.psimps [OF 3(1)] re int_base36_def split: sum.splits option.splits)
    next
      case (Indirect_type q)
      with TYPE_RE_shorter [OF re] have l1: "length c1 < length cursor" by simp
      have "consumes cursor (parse_type c1)"
        using consumes_within [OF 3(4) [OF re refl Indirect_type]] s1 l1 by (rule consumes_step)
      then show ?thesis using Indirect_type
        by (auto simp: parse_type.psimps [OF 3(1)] re split: sum.splits)
    next
      case Expr_primary
      with TYPE_RE_Expr_primary re have "c1 = cursor" by blast
      with 3(5) [OF re refl Expr_primary] show ?thesis using Expr_primary
        by (simp add: parse_type.psimps [OF 3(1)] re)
    qed
  qed
next
  case (4 cursor)
  show ?case
  proof (cases "EXPR_PRIMARY_RE cursor")
    case None
    then show ?thesis by (simp add: parse_expr_primary.psimps [OF 4(1)])
  next
    case (Some x2)
    obtain m c1 where x2: "x2 = (m, c1)" by (cases x2)
    note re = Some [unfolded x2]
    from EXPR_PRIMARY_RE_Some [OF re] have c: "cursor = CHR ''L'' # c1" .
    then have s1: "suffix c1 cursor" and l1: "length c1 < length cursor"
      by (simp_all add: suffix_ConsI)
    show ?thesis
    proof (cases m)
      case Mangled_name
      have "consumes cursor (Inr (n, r))" if "advance_until ''E'' c1 = Some (t, r)" for n t r
        using advance_until_suffix [OF that] s1 l1 by (intro consumes_step [of c1]) simp_all
      then show ?thesis using Mangled_name
        by (auto simp: parse_expr_primary.psimps [OF 4(1)] re split: sum.splits option.splits)
    next
      case Literal_value
      have t: "consumes c1 (parse_type c1)" by (rule 4(3) [OF re refl Literal_value])
      show ?thesis
      proof (cases "parse_type c1")
        case (Inl e)
        then show ?thesis using Literal_value
          by (simp add: parse_expr_primary.psimps [OF 4(1)] re)
      next
        case (Inr b)
        obtain ty c2 where b: "b = (ty, c2)" by (cases b)
        note d = Inr [unfolded b]
        from t d have s2: "suffix c2 c1" by simp
        have step: "consumes cursor (Inr (n, r))" if "suffix r c2" for n r
        proof -
          from that s2 have "suffix r c1" by (rule suffix_order.trans)
          then show ?thesis using s1 l1 by (intro consumes_step [of c1]) simp_all
        qed
        show ?thesis
        proof (cases "advance_until ''E'' c2")
          case None
          then show ?thesis using Literal_value step [of c2 PyNone]
            by (simp add: parse_expr_primary.psimps [OF 4(1)] re d)
        next
          case (Some x)
          obtain v c3 where x: "x = (v, c3)" by (cases x)
          note au = Some [unfolded x]
          from advance_until_suffix [OF au] have "suffix c3 c2" .
          from step [OF this] step [of c2 PyNone] show ?thesis using Literal_value
            by (simp add: parse_expr_primary.psimps [OF 4(1)] re d au)
        qed
      qed
    qed
  qed
next
  case (5 cursor)
  show ?case
  proof (cases "SPECIAL_RE cursor")
    case None
    then show ?thesis by (simp add: parse_special.psimps [OF 5(1)])
  next
    case (Some x2)
    obtain k c1 where x2: "x2 = (k, c1)" by (cases x2)
    note re = Some [unfolded x2]
    from SPECIAL_RE_Some [OF re] have s1: "suffix c1 cursor" and l1: "length c1 < length cursor"
      by simp_all
    have "consumes cursor (parse_type c1)"
      using consumes_within [OF 5(2) [OF re refl]] s1 l1 by (rule consumes_step)
    then show ?thesis
      by (auto simp: parse_special.psimps [OF 5(1)] re split: sum.splits)
  qed
next
  case (6 cursor)
  show ?case
  proof (cases "MANGLED_NAME_RE cursor")
    case None
    then show ?thesis by (simp add: parse_mangled_name.psimps [OF 6(1)])
  next
    case (Some c1)
    from MANGLED_NAME_RE_Some [OF Some] have s1: "suffix c1 cursor" and l1: "length c1 < length cursor"
      by (simp_all add: suffix_def)
    have sp: "consumes c1 (parse_special c1)" by (rule 6(2) [OF Some])
    show ?thesis
    proof (cases "parse_special c1")
      case (Inl e)
      then show ?thesis by (simp add: parse_mangled_name.psimps [OF 6(1)] Some)
    next
      case (Inr b)
      obtain special c2 where b: "b = (special, c2)" by (cases b)
      note d = Inr [unfolded b]
      from sp d have s2: "suffix c2 c1" by simp
      have step: "consumes cursor res" if "within c2 res" for res
        using that s2 s1 l1 by (meson consumes_step within_step)
      show ?thesis
      proof (cases "special = PyNone")
        case False
        then show ?thesis using step [of "Inr (special, c2)"]
          by (simp add: parse_mangled_name.psimps [OF 6(1)] Some d)
      next
        case True
        then have nn: "\<not> special \<noteq> PyNone" by simp
        have nm: "consumes c2 (parse_name c2)" by (rule 6(3) [OF Some d refl nn])
        show ?thesis
        proof (cases "parse_name c2")
          case (Inl e)
          then show ?thesis using True by (simp add: parse_mangled_name.psimps [OF 6(1)] Some d)
        next
          case (Inr b')
          obtain name c3 where b': "b' = (name, c3)" by (cases b')
          note d' = Inr [unfolded b']
          from nm d' have s3: "suffix c3 c2" by simp
          show ?thesis
          proof (cases "name = PyNone")
            case True
            then show ?thesis using \<open>special = PyNone\<close> step [of "Inr (PyNone, c3)"] s3
              by (simp add: parse_mangled_name.psimps [OF 6(1)] Some d d')
          next
            case False
            have "within c3 (parse_arg_types c3 [])" by (rule 6(4) [OF Some d refl nn d' refl False])
            then have "within c2 (parse_arg_types c3 [])" using s3 by (rule within_step)
            then have "within c2 (Inr (n, r) :: exn + node \<times> cursor)" if "parse_arg_types c3 [] = Inr (a, r)" for n a r
              using that by simp
            then have "consumes cursor (Inr (n, r))" if "parse_arg_types c3 [] = Inr (a, r)" for n a r
              using that step by blast
            then show ?thesis using False \<open>special = PyNone\<close>
              by (auto simp: parse_mangled_name.psimps [OF 6(1)] Some d d' split: sum.splits option.splits)
          qed
        qed
      qed
    qed
  qed
next
  case (7 cursor arg_types)
  show ?case
  proof (cases "at_end cursor")
    case True
    then show ?thesis by (simp add: parse_arg_types.psimps [OF 7(1)])
  next
    case False
    have t: "consumes cursor (parse_type cursor)" by (rule 7(2) [OF False])
    show ?thesis
    proof (cases "parse_type cursor")
      case (Inl e)
      then show ?thesis using False by (simp add: parse_arg_types.psimps [OF 7(1)])
    next
      case (Inr b)
      obtain ty c1 where b: "b = (ty, c1)" by (cases b)
      note d = Inr [unfolded b]
      from t d have s1: "suffix c1 cursor" by simp
      show ?thesis
      proof (cases "ty = PyNone")
        case True
        then show ?thesis using False s1 by (simp add: parse_arg_types.psimps [OF 7(1)] d)
      next
        case ne: False
        have "within c1 (parse_arg_types c1 (arg_types @ [ty]))" by (rule 7(3) [OF False d refl ne])
        then have "within cursor (parse_arg_types c1 (arg_types @ [ty]))" using s1 by (rule within_step)
        then show ?thesis using False ne by (simp add: parse_arg_types.psimps [OF 7(1)] d)
      qed
    qed
  qed
next
  case (8 kind fn cursor nodes)
  show ?case
  proof (cases "accept ''E'' cursor")
    case (Some c1)
    from accept_Some [OF Some] have "suffix c1 cursor" "c1 \<noteq> cursor"
      by (simp_all add: suffix_def)
    then show ?thesis
      by (simp add: parse_until_end.psimps [OF 8(1)] Some)
  next
    case None
    let ?call = "case fn of Fn_parse_name \<Rightarrow> parse_name cursor | Fn_parse_type \<Rightarrow> parse_type cursor"
    have t: "consumes cursor ?call"
      using 8(2) [OF None] 8(3) [OF None] by (cases fn) simp_all
    show ?thesis
    proof (cases ?call)
      case (Inl e)
      then show ?thesis by (simp add: parse_until_end.psimps [OF 8(1)] None)
    next
      case (Inr b)
      obtain node c1 where b: "b = (node, c1)" by (cases b)
      note d = Inr [unfolded b]
      from t d have s1: "suffix c1 cursor" and n1: "node \<noteq> PyNone \<Longrightarrow> c1 \<noteq> cursor" by simp_all
      show ?thesis
      proof (cases "node = PyNone \<or> at_end c1")
        case True
        then show ?thesis using s1 by (simp add: parse_until_end.psimps [OF 8(1)] None d)
      next
        case False
        then have l1: "length c1 < length cursor" using s1 n1
          by (auto simp: suffix_def)
        have "consumes c1 (parse_until_end kind fn c1 (nodes @ [node]))"
          by (rule 8(4) [OF None d refl False])
        then have "consumes cursor (parse_until_end kind fn c1 (nodes @ [node]))"
          using s1 l1 consumes_step consumes_within by blast
        then show ?thesis using False by (simp add: parse_until_end.psimps [OF 8(1)] None d)
      qed
    qed
  qed
qed

lemma parse_shorter_dom:
  shows "parse_dom (Inl (Inl (Inl c))) \<Longrightarrow> parse_name c = Inr (n, r) \<Longrightarrow>
           length r \<le> length c \<and> (n \<noteq> PyNone \<longrightarrow> length r < length c)"
    and "parse_dom (Inl (Inl (Inr (m, c)))) \<Longrightarrow> parse_name_dispatch m c = Inr (n, r) \<Longrightarrow>
           length r \<le> length c"
    and "parse_dom (Inl (Inr (Inl c))) \<Longrightarrow> parse_type c = Inr (n, r) \<Longrightarrow>
           length r \<le> length c \<and> (n \<noteq> PyNone \<longrightarrow> length r < length c)"
    and "parse_dom (Inr (Inl (Inl c))) \<Longrightarrow> parse_special c = Inr (n, r) \<Longrightarrow>
           length r \<le> length c"
  using parse_consumes_dom(1) [of c] parse_consumes_dom(2) [of m c]
        parse_consumes_dom(3) [of c] parse_consumes_dom(5) [of c]
  by (auto simp: suffix_def)

definition parse_measure ::
  "((cursor + name_match \<times> cursor) + cursor + cursor) + (cursor + cursor) +
   cursor \<times> node list + list_kind \<times> production \<times> cursor \<times> node list \<Rightarrow> nat" where
  "parse_measure call =
     (case call of
        Inl (Inl (Inl c)) \<Rightarrow> 4 * length c
      | Inl (Inl (Inr (m, c))) \<Rightarrow> 4 * length c + 3
      | Inl (Inr (Inl c)) \<Rightarrow> 4 * length c + 1
      | Inl (Inr (Inr c)) \<Rightarrow> 4 * length c
      | Inr (Inl (Inl c)) \<Rightarrow> 4 * length c
      | Inr (Inl (Inr c)) \<Rightarrow> 4 * length c
      | Inr (Inr (Inl (c, a))) \<Rightarrow> 4 * length c + 2
      | Inr (Inr (Inr (k, f, c, ns))) \<Rightarrow> 4 * length c + 2)"

lemma parse_dom_total: "\<forall>x. parse_dom x"
  apply (relation "measure parse_measure")
  apply (auto simp: parse_measure_def
         dest: NAME_RE_shorter TYPE_RE_shorter TYPE_RE_Expr_primary SPECIAL_RE_Some
               MANGLED_NAME_RE_Some EXPR_PRIMARY_RE_Some advance_until_text_shorter
               accept_Some parse_shorter_dom)
  subgoal for cursor a b aa ba x2a
    using NAME_RE_shorter [of cursor a b] parse_shorter_dom(2) [of a b aa ba]
          accept_Some [of "''I''" ba x2a]
    by simp
  subgoal for cursor b aa ba
    using EXPR_PRIMARY_RE_Some [of cursor Mangled_name b]
          advance_until_text_shorter [of "CHR ''E''" b aa ba]
    by simp
  subgoal for cursor x2 b
    using MANGLED_NAME_RE_Some [of cursor x2] parse_shorter_dom(4) [of x2 PyNone b]
    by simp
  subgoal for cursor x2 b aa ba
    using MANGLED_NAME_RE_Some [of cursor x2] parse_shorter_dom(4) [of x2 PyNone b]
          parse_shorter_dom(1) [of b aa ba]
    by simp
  subgoal for fn cursor a b
    using parse_shorter_dom(1) [of cursor a b] parse_shorter_dom(3) [of cursor a b]
    by (cases fn) simp_all
  done

termination parse_name
  by (rule parse_dom_total)

lemmas parse_consumes = parse_consumes_dom [OF parse_dom_total [rule_format]]

declare parse_name.simps [simp del] parse_name_dispatch.simps [simp del] parse_type.simps [simp del]
  parse_expr_primary.simps [simp del] parse_special.simps [simp del]
  parse_mangled_name.simps [simp del] parse_arg_types.simps [simp del]
  parse_until_end.simps [simp del]

definition parse :: "string \<Rightarrow> exn + node" where
  "parse raw = (case parse_mangled_name raw of Inl e \<Rightarrow> Inl e | Inr (node, cursor) \<Rightarrow> Inr node)"

section \<open>The claims\<close>

subsection \<open>Exceptions that leave \<^verbatim>\<open>parse\<close>\<close>

text \<open>
  Claim C1: for every input, \<^verbatim>\<open>parse\<close> returns a node or the failure value and never
  raises; in particular a template-parameter marker without its delimiter and a nested
  mangled name without its end marker yield the failure value.

  The code raises on such inputs. After the marker \<^verbatim>\<open>T\<close>, \<^verbatim>\<open>_parse_type\<close> passes the result of
  \<^verbatim>\<open>advance_until('_')\<close> to \<^verbatim>\<open>int\<close> without testing it for \<^verbatim>\<open>None\<close> (\<^verbatim>\<open>TypeError\<close>), and a
  text that is no base-36 literal raises \<^verbatim>\<open>ValueError\<close>; \<^verbatim>\<open>_parse_expr_primary\<close> builds a
  cursor on the result of \<^verbatim>\<open>advance_until('E')\<close> without testing it (\<^verbatim>\<open>TypeError\<close> in
  \<^verbatim>\<open>match\<close>), where its literal branch does test it; and the pattern of the builtin types
  accepts codes that the table of builtin types does not hold (\<^verbatim>\<open>KeyError\<close>).
\<close>

theorem parse_raises_on_truncated_input:
  "parse ''_Z1fT'' = Inl TypeError \<and>
   parse ''_Z1fIL_Z1g'' = Inl TypeError \<and>
   parse ''_Z1fDd'' = Inl KeyError \<and>
   parse ''_Z1fT!_'' = Inl ValueError"
  by code_simp

subsection \<open>Failures that do not reach the top\<close>

text \<open>
  Claim C3: whenever a production fails, the failure propagates to the top and the whole
  parse fails; in particular a special-name production that matched its introducer tag
  but whose inner type production failed makes the entire parse fail.

  The code loses the failure in two places. \<^verbatim>\<open>_parse_mangled_name\<close> goes on with
  \<^verbatim>\<open>_parse_name\<close> whenever \<^verbatim>\<open>_parse_special\<close> returns \<^verbatim>\<open>None\<close>, also when the tag had matched
  and the type after it failed, and from the position where that type stopped. In the
  nested-name branch of \<^verbatim>\<open>_parse_name\<close> the result of \<^verbatim>\<open>_parse_until_end\<close> goes through
  \<^verbatim>\<open>_handle_cv\<close> and \<^verbatim>\<open>_handle_indirect\<close> before the test \<^verbatim>\<open>node is None\<close>, which wrap
  \<^verbatim>\<open>None\<close> in a node.
\<close>

theorem failed_special_name_is_retried_as_name:
  "parse_type ''3nw'' = Inr (PyNone, ''nw'') \<and>
   parse_special ''TV3nw'' = Inr (PyNone, ''nw'') \<and>
   parse ''_ZTV3nw'' = Inr (Operator ''new'') \<and>
   parse_until_end Kind_qual_name Fn_parse_name ''3foo'' [] = Inr (PyNone, []) \<and>
   parse ''_ZNK3foo'' = Inr (CvQual PyNone {''const''})"
  by code_simp

text \<open>
  Claim C9: a source name whose declared length exceeds the remaining input makes the
  parse fail; \<^verbatim>\<open>parse\<close> never returns a name node with fewer characters than declared.

  \<^verbatim>\<open>_parse_source_name\<close> itself returns \<^verbatim>\<open>None\<close>, but the parse does not always fail: the
  two places of claim C3 go on after that failure.
\<close>

theorem short_source_name_parse_succeeds:
  "parse_source_name ''C1'' ''9'' = (PyNone, ''C1'') \<and>
   parse ''_ZTV9C1'' = Inr (Ctor ''complete'') \<and>
   parse_source_name '''' ''9'' = (PyNone, '''') \<and>
   parse ''_ZNK9'' = Inr (CvQual PyNone {''const''})"
  by code_simp

subsection \<open>The index of a template parameter\<close>

lemma digit_value_Some_cases:
  "digit_value c = Some y \<Longrightarrow> \<not> is_int_space c \<and> c \<noteq> CHR ''_'' \<and> c \<noteq> CHR ''-'' \<and> c \<noteq> CHR ''+''"
  by (auto simp: digit_value_def is_int_space_def Let_def split: if_splits)

lemma digit_value_underscore [simp]: "digit_value CHR ''_'' = None"
  by (simp add: digit_value_def)

lemma valid_digits_all:
  "ds \<noteq> [] \<Longrightarrow> \<forall>c\<in>set ds. digit_value c \<noteq> None \<Longrightarrow> valid_digits ds"
  by (induction ds rule: valid_digits.induct) (auto dest: digit_value_Some_cases)

lemma dropWhile_id: "xs \<noteq> [] \<Longrightarrow> \<not> P (hd xs) \<Longrightarrow> dropWhile P xs = xs"
  by (cases xs) auto

lemma int_base36_digits:
  assumes "ds \<noteq> []" and "\<forall>c\<in>set ds. digit_value c \<noteq> None"
  shows "int_base36 (Some ds) = Inr (int (base36_value ds))"
proof -
  from assms(1) have "hd ds \<in> set ds" "last ds \<in> set ds" by simp_all
  with assms(2) have "digit_value (hd ds) \<noteq> None" "digit_value (last ds) \<noteq> None"
    by blast+
  then obtain y z where "digit_value (hd ds) = Some y" "digit_value (last ds) = Some z"
    by blast
  from digit_value_Some_cases [OF this(1)] digit_value_Some_cases [OF this(2)]
  have h: "\<not> is_int_space (hd ds)" and l: "\<not> is_int_space (last ds)"
    and s: "hd ds \<noteq> CHR ''-''" "hd ds \<noteq> CHR ''+''"
    by blast+
  from assms(1) h have d1: "dropWhile is_int_space ds = ds" by (rule dropWhile_id)
  from assms(1) l have d2: "dropWhile is_int_space (rev ds) = rev ds"
    by (intro dropWhile_id) (simp_all add: hd_rev)
  from assms(1) s have t: "take 1 ds \<noteq> ''-''" "take 1 ds \<noteq> ''+''"
    by (cases ds; simp)+
  from assms(2) have f: "filter (\<lambda>c. c \<noteq> CHR ''_'') ds = ds"
    by (auto dest: digit_value_Some_cases simp: filter_id_conv)
  show ?thesis
    using valid_digits_all [OF assms] t
    by (simp add: int_base36_def d1 d2 f Let_def)
qed

lemma advance_until_char:
  "d \<notin> set t \<Longrightarrow> advance_until [d] (t @ d # r) = Some (t, r)"
proof (induction t)
  case Nil
  show ?case by (subst advance_until.simps) simp
next
  case (Cons a t)
  then show ?case by (subst advance_until.simps) auto
qed

lemma TYPE_RE_T: "TYPE_RE (CHR ''T'' # s) = Some (Template_param, s)"
  by (simp add: TYPE_RE_def one_of_def)

text \<open>
  Claim C4: a template-parameter marker reads the characters up to the delimiter as a
  base-36 integer and produces a \<^verbatim>\<open>tpl_param\<close> node carrying exactly that value, or index 0
  when the delimiter follows at once.

  The code adds one to the value that it reads (\<^verbatim>\<open>1 + int(seq_id, 36)\<close>), as the Itanium
  ABI numbers the parameters: \<^verbatim>\<open>T_\<close> is the first, \<^verbatim>\<open>T0_\<close> the second. For the text \<^verbatim>\<open>0\<close>,
  whose base-36 value is 0, the node carries 1.
\<close>

theorem tpl_param_index_counterexample:
  "parse_type ''T0_'' = Inr (TplParam 1, []) \<and> int_base36 (Some ''0'') = Inr 0"
  by code_simp

text \<open>
  Claim C4, amended: the bare form \<^verbatim>\<open>T_\<close> yields index 0, and a non-empty sequence of
  base-36 digits before the delimiter yields the index that is one more than its
  base-36 value. The cursor is left after the delimiter.
\<close>

theorem tpl_param_index:
  "parse_type (''T_'' @ rest) = Inr (TplParam 0, rest) \<and>
   (ds \<noteq> [] \<and> (\<forall>c\<in>set ds. digit_value c \<noteq> None) \<longrightarrow>
      parse_type (''T'' @ ds @ ''_'' @ rest) = Inr (TplParam (1 + int (base36_value ds)), rest))"
proof (intro conjI impI)
  have "advance_until ''_'' (''_'' @ rest) = Some ([], rest)"
    using advance_until_char [of "CHR ''_''" "[]" rest] by simp
  then show "parse_type (''T_'' @ rest) = Inr (TplParam 0, rest)"
    by (simp add: parse_type.simps [of "CHR ''T'' # _"] TYPE_RE_T)
next
  assume a: "ds \<noteq> [] \<and> (\<forall>c\<in>set ds. digit_value c \<noteq> None)"
  then have "CHR ''_'' \<notin> set ds" by (auto dest: digit_value_Some_cases)
  then have "advance_until ''_'' (ds @ ''_'' @ rest) = Some (ds, rest)"
    using advance_until_char [of "CHR ''_''" ds rest] by simp
  then show "parse_type (''T'' @ ds @ ''_'' @ rest) = Inr (TplParam (1 + int (base36_value ds)), rest)"
    using a int_base36_digits [of ds]
    by (simp add: parse_type.simps [of "CHR ''T'' # _"] TYPE_RE_T)
qed

theorem tpl_param_index_witness:
  "''1z'' \<noteq> [] \<and> digit_value CHR ''1'' \<noteq> None \<and> digit_value CHR ''z'' \<noteq> None \<and>
   parse_type ''T1z_i'' = Inr (TplParam 72, ''i'')"
proof -
  have h: "''1z'' \<noteq> [] \<and> (\<forall>c\<in>set ''1z''. digit_value c \<noteq> None)"
    by (simp add: digit_value_def)
  have v: "base36_value ''1z'' = 71" by code_simp
  from h tpl_param_index [of "''i''" "''1z''"] v show ?thesis by simp
qed

subsection \<open>Repeated qualifier letters\<close>

lemma handle_cv_set:
  assumes "set a = set b"
  shows "handle_cv a n = handle_cv b n"
  unfolding handle_cv_def assms ..

lemma TYPE_RE_qualified:
  assumes "is_cv_letter q"
  shows "TYPE_RE (q # s) = Some (Qualified_type (q # takeWhile is_cv_letter s), dropWhile is_cv_letter s)"
proof -
  from assms have q: "q = CHR ''r'' \<or> q = CHR ''V'' \<or> q = CHR ''K''"
    by (simp add: is_cv_letter_def)
  have a: "\<not> one_of ''vwbcahstijlmxynofdegz'' (q # s)"
    using q by (auto simp: one_of_def)
  have b: "take 2 (q # s) \<notin> set [''Dd'', ''De'', ''Df'', ''Dh'', ''DF'', ''Di'', ''Ds'', ''Da'', ''Dc'', ''Dn'']"
    using q by auto
  have c: "one_of ''rVK'' (q # s)"
    using q by (auto simp: one_of_def)
  show ?thesis
    unfolding TYPE_RE_def using a b c assms by simp
qed

lemma takeWhile_replicate_append:
  "P q \<Longrightarrow> takeWhile P (replicate n q @ t) = replicate n q @ takeWhile P t"
  by (induction n) simp_all

lemma dropWhile_replicate_append:
  "P q \<Longrightarrow> dropWhile P (replicate n q @ t) = dropWhile P t"
  by (induction n) simp_all

lemma parse_type_repeated_letter:
  assumes "is_cv_letter q" and "0 < n"
  shows "parse_type (replicate n q @ t) = parse_type (q # t)"
proof -
  from assms(2) obtain k where n: "n = Suc k" by (cases n) auto
  have s: "set (q # takeWhile is_cv_letter (replicate k q @ t)) = set (q # takeWhile is_cv_letter t)"
    using assms(1) by (auto simp: takeWhile_replicate_append)
  have l: "parse_type (q # replicate k q @ t) =
           (case parse_type (dropWhile is_cv_letter t) of
              Inl e \<Rightarrow> Inl e
            | Inr (ty, c2) \<Rightarrow>
                if ty = PyNone then Inr (PyNone, c2)
                else Inr (handle_cv (q # takeWhile is_cv_letter (replicate k q @ t)) ty, c2))"
    by (subst parse_type.simps)
       (simp add: TYPE_RE_qualified [OF assms(1)] dropWhile_replicate_append [of is_cv_letter, OF assms(1)])
  have r: "parse_type (q # t) =
           (case parse_type (dropWhile is_cv_letter t) of
              Inl e \<Rightarrow> Inl e
            | Inr (ty, c2) \<Rightarrow>
                if ty = PyNone then Inr (PyNone, c2)
                else Inr (handle_cv (q # takeWhile is_cv_letter t) ty, c2))"
    by (subst parse_type.simps) (simp add: TYPE_RE_qualified [OF assms(1)])
  show ?thesis
    unfolding n replicate_Suc append_Cons l r handle_cv_set [OF s] ..
qed

lemma parse_arg_types_cong:
  "x \<noteq> [] \<Longrightarrow> y \<noteq> [] \<Longrightarrow> parse_type x = parse_type y \<Longrightarrow>
   parse_arg_types x a = parse_arg_types y a"
  by (subst parse_arg_types.simps, subst (2) parse_arg_types.simps) (simp add: at_end_def)

lemma parse_Z1f:
  assumes "x \<noteq> []" and "hd x \<noteq> CHR ''I''" and "\<not> is_digit (hd x)"
  shows "parse (''_Z1f'' @ x) =
          (case parse_arg_types x [] of
             Inl e \<Rightarrow> Inl e
           | Inr (None, c) \<Rightarrow> Inr PyNone
           | Inr (Some arg_types, c) \<Rightarrow>
               Inr (if arg_types \<noteq> [] then Function (Name ''f'') arg_types else Name ''f''))"
proof -
  have sp: "parse_special (CHR ''1'' # CHR ''f'' # x) = Inr (PyNone, CHR ''1'' # CHR ''f'' # x)"
    by (subst parse_special.simps) (simp add: SPECIAL_RE_def)
  have re: "NAME_RE (CHR ''1'' # CHR ''f'' # x) = Some (Source_name ''1'', CHR ''f'' # x)"
    by (simp add: NAME_RE_def is_digit_def)
  have sn: "parse_source_name (CHR ''f'' # x) ''1'' = (Name ''f'', x)"
    by (simp add: parse_source_name_def int_decimal_def advance_def)
  have ac: "accept ''I'' x = None"
    using assms(1,2) by (cases x) (simp_all add: accept_def)
  have ds: "parse_name_dispatch (Source_name ''1'') (CHR ''f'' # x) = Inr (Name ''f'', x)"
    by (subst parse_name_dispatch.simps) (simp add: sn)
  have nm: "parse_name (CHR ''1'' # CHR ''f'' # x) = Inr (Name ''f'', x)"
    by (subst parse_name.simps) (simp add: re ds ac)
  have mn: "MANGLED_NAME_RE (CHR ''_'' # CHR ''Z'' # CHR ''1'' # CHR ''f'' # x) =
              Some (CHR ''1'' # CHR ''f'' # x)"
    by (simp add: MANGLED_NAME_RE_def)
  have "parse_mangled_name (CHR ''_'' # CHR ''Z'' # CHR ''1'' # CHR ''f'' # x) =
          (case parse_arg_types x [] of
             Inl e \<Rightarrow> Inl e
           | Inr (None, c4) \<Rightarrow> Inr (PyNone, c4)
           | Inr (Some arg_types, c4) \<Rightarrow>
               if arg_types \<noteq> [] then Inr (Function (Name ''f'') arg_types, c4)
               else Inr (Name ''f'', c4))"
    by (subst parse_mangled_name.simps) (simp add: mn sp nm)
  then show ?thesis
    by (simp add: parse_def split: sum.splits option.splits)
qed

text \<open>
  Claim C8: repeating the same cv-qualifier letter any number of times in a
  qualified-type production yields exactly the same AST as writing it once: for every
  type suffix \<open>t\<close> and every \<open>n \<ge> 1\<close>, parsing \<open>n\<close> copies of a qualifier letter before \<open>t\<close>
  gives the same result as one copy, as \<^verbatim>\<open>parse('_Z1fVVVi')\<close> equals \<^verbatim>\<open>parse('_Z1fVi')\<close>.

  The pattern \<^verbatim>\<open>[rVK]+\<close> reads the whole run of letters and \<^verbatim>\<open>_handle_cv\<close> only asks which
  letters occur. The statement holds for the production \<^verbatim>\<open>_parse_type\<close>, with the same node,
  the same cursor and the same exception if there is one, and for \<^verbatim>\<open>parse\<close> on the argument
  types of a function \<^verbatim>\<open>f\<close>.
\<close>

theorem repeated_qualifier_letter:
  assumes "is_cv_letter q" and "0 < n"
  shows "parse_type (replicate n q @ t) = parse_type (q # t) \<and>
         parse (''_Z1f'' @ replicate n q @ t) = parse (''_Z1f'' @ q # t)"
proof
  show t: "parse_type (replicate n q @ t) = parse_type (q # t)"
    using assms by (rule parse_type_repeated_letter)
  from assms(2) obtain k where n: "n = Suc k" by (cases n) auto
  have q: "q \<noteq> CHR ''I''" "\<not> is_digit q"
    using assms(1) by (auto simp: is_cv_letter_def is_digit_def)
  have a: "parse_arg_types (replicate n q @ t) [] = parse_arg_types (q # t) []"
    using t by (intro parse_arg_types_cong) (simp_all add: n)
  show "parse (''_Z1f'' @ replicate n q @ t) = parse (''_Z1f'' @ q # t)"
    using parse_Z1f [of "replicate n q @ t"] parse_Z1f [of "q # t"] q a
    by (simp add: n)
qed

theorem repeated_qualifier_letter_witness:
  "is_cv_letter CHR ''V'' \<and> (0::nat) < 3 \<and>
   parse_type ''VVVi'' = parse_type ''Vi'' \<and> parse ''_Z1fVVVi'' = parse ''_Z1fVi'' \<and>
   parse ''_Z1fVi'' = Inr (Function (Name ''f'') [CvQual (Name ''int'') {''volatile''}])"
proof -
  have h: "is_cv_letter CHR ''V''" "(0::nat) < 3"
    by (simp_all add: is_cv_letter_def)
  have r: "replicate 3 CHR ''V'' = ''VVV''" by (simp add: numeral_3_eq_3)
  have v: "parse ''_Z1fVi'' = Inr (Function (Name ''f'') [CvQual (Name ''int'') {''volatile''}])"
    by code_simp
  from repeated_qualifier_letter [OF h, of "''i''"] h r v show ?thesis by simp
qed

subsection \<open>Printing\<close>

text \<open>
  \<open>demangle\<close> is what the test helper \<^verbatim>\<open>assertDemangles\<close> computes: the result of \<^verbatim>\<open>parse\<close>,
  printed with \<^verbatim>\<open>str\<close> unless it is \<^verbatim>\<open>None\<close>. Two iteration orders of the qualifier set are
  given: the words in the order const, volatile, restrict, and the words in the order in
  which \<^verbatim>\<open>_handle_cv\<close> adds them to the set.
\<close>

definition demangle :: "(string set \<Rightarrow> string list) \<Rightarrow> string \<Rightarrow> exn + string option" where
  "demangle iter mangled =
     (case parse mangled of
        Inl e \<Rightarrow> Inl e
      | Inr result \<Rightarrow>
          if result \<noteq> PyNone
          then (case str_node iter result of Inl e \<Rightarrow> Inl e | Inr s \<Rightarrow> Inr (Some s))
          else Inr None)"

definition canonical_iteration :: "string set \<Rightarrow> string list" where
  "canonical_iteration qual = filter (\<lambda>w. w \<in> qual) [''const'', ''volatile'', ''restrict'']"

definition insertion_iteration :: "string set \<Rightarrow> string list" where
  "insertion_iteration qual = filter (\<lambda>w. w \<in> qual) [''restrict'', ''volatile'', ''const'']"

lemma set_iteration_canonical: "set_iteration canonical_iteration"
  by code_simp

lemma set_iteration_insertion: "set_iteration insertion_iteration"
  by code_simp

lemma set_iteration_subset:
  assumes "set_iteration iter" and "qual \<subseteq> set qualifier_words"
  shows "set (iter qual) = qual \<and> distinct (iter qual)"
proof -
  from assms(2) have "qual \<in> set ` set (subseqs qualifier_words)"
    by (simp add: subseqs_powset)
  then obtain ws where "ws \<in> set (subseqs qualifier_words)" and "qual = set ws" by blast
  with assms(1) show ?thesis
    by (simp add: set_iteration_def list_all_iff)
qed

lemma set_iteration_single:
  assumes "set_iteration iter" and "w \<in> set qualifier_words"
  shows "iter {w} = [w]"
proof -
  from set_iteration_subset [OF assms(1), of "{w}"] assms(2)
  have s: "set (iter {w}) = {w}" and d: "distinct (iter {w})" by simp_all
  show ?thesis
  proof (cases "iter {w}")
    case Nil
    with s show ?thesis by simp
  next
    case (Cons a as)
    with s d have "a = w" "set as \<subseteq> {w}" "a \<notin> set as" by auto
    then have "as = []" by (cases as) auto
    with Cons \<open>a = w\<close> show ?thesis by simp
  qed
qed

lemma parse_scenarios:
  "parse ''_Z3foo'' = Inr (Name ''foo'')"
  "parse ''_ZN3fooC1E'' = Inr (QualName [Name ''foo'', Ctor ''complete''])"
  "parse ''_ZSs'' = Inr (QualName [Name ''std'', Name ''string''])"
  "parse ''_Z3fooIcE'' = Inr (QualName [Name ''foo'', TplArgs [Name ''char'']])"
  "parse ''_Z1fv'' = Inr (Function (Name ''f'') [Name ''void''])"
  "parse ''_Z1fPi'' = Inr (Function (Name ''f'') [Pointer (Name ''int'')])"
  "parse ''_Z1fRKi'' = Inr (Function (Name ''f'') [LValue (CvQual (Name ''int'') {''const''})])"
  "parse ''_Z1fILi1EE'' = Inr (QualName [Name ''f'', TplArgs [Literal ''1'' (Name ''int'')]])"
  "parse ''_ZTV1f'' = Inr (Vtable (Name ''f''))"
  "parse ''_Z3x'' = Inr PyNone"
  "parse ''_ZSt'' = Inr PyNone"
  by code_simp+

text \<open>
  Claim C2: for each concrete scenario \<^verbatim>\<open>parse\<close> followed by the printer yields the listed
  output: \<^verbatim>\<open>_Z3foo\<close> prints \<^verbatim>\<open>foo\<close>, \<^verbatim>\<open>_ZN3fooC1E\<close> prints \<^verbatim>\<open>foo::{ctor}\<close>, \<^verbatim>\<open>_ZSs\<close> prints
  \<^verbatim>\<open>std::string\<close>, \<^verbatim>\<open>_Z3fooIcE\<close> prints \<^verbatim>\<open>foo<char>\<close>, \<^verbatim>\<open>_Z1fv\<close> prints \<^verbatim>\<open>f()\<close>, \<^verbatim>\<open>_Z1fPi\<close>
  prints \<^verbatim>\<open>f(int*)\<close>, \<^verbatim>\<open>_Z1fRKi\<close> prints \<^verbatim>\<open>f(int const&)\<close>, \<^verbatim>\<open>_Z1fILi1EE\<close> prints
  \<^verbatim>\<open>f<(int)1>\<close>, \<^verbatim>\<open>_ZTV1f\<close> prints \<^verbatim>\<open>vtable for f\<close>, and \<^verbatim>\<open>_Z3x\<close> and \<^verbatim>\<open>_ZSt\<close> yield the
  failure value. This holds whatever the iteration order of Python's sets is: the only
  qualifier set printed has one element.
\<close>

theorem concrete_scenarios:
  assumes "set_iteration iter"
  shows "demangle iter ''_Z3foo'' = Inr (Some ''foo'') \<and>
         demangle iter ''_ZN3fooC1E'' = Inr (Some ''foo::{ctor}'') \<and>
         demangle iter ''_ZSs'' = Inr (Some ''std::string'') \<and>
         demangle iter ''_Z3fooIcE'' = Inr (Some ''foo<char>'') \<and>
         demangle iter ''_Z1fv'' = Inr (Some ''f()'') \<and>
         demangle iter ''_Z1fPi'' = Inr (Some ''f(int*)'') \<and>
         demangle iter ''_Z1fRKi'' = Inr (Some ''f(int const&)'') \<and>
         demangle iter ''_Z1fILi1EE'' = Inr (Some ''f<(int)1>'') \<and>
         demangle iter ''_ZTV1f'' = Inr (Some ''vtable for f'') \<and>
         demangle iter ''_Z3x'' = Inr None \<and>
         demangle iter ''_ZSt'' = Inr None"
proof -
  have c: "iter {''const''} = [''const'']"
    using assms by (rule set_iteration_single) (simp add: qualifier_words_def)
  show ?thesis
    by (simp add: demangle_def parse_scenarios c is_tpl_args_def)
qed

theorem concrete_scenarios_witness:
  "set_iteration canonical_iteration \<and>
   demangle canonical_iteration ''_Z1fRKi'' = Inr (Some ''f(int const&)'') \<and>
   demangle canonical_iteration ''_Z3x'' = Inr None"
  using concrete_scenarios [OF set_iteration_canonical] set_iteration_canonical by simp

text \<open>
  Claim C5: printing a \<^verbatim>\<open>cv_qual\<close> node yields the pointee's print followed by its
  qualifier words in the fixed order const, volatile, restrict, whatever the order of the
  letters in the input; printing is deterministic.

  \<^verbatim>\<open>QualNode.__str__\<close> prints \<^verbatim>\<open>list(self.qual)\<close>, the set in its iteration order, and does
  not sort it. An iteration order that Python allows, the order in which the words were
  added, prints \<^verbatim>\<open>int volatile const\<close> for the qualifiers of \<^verbatim>\<open>_Z1fKVi\<close>.
\<close>

theorem cv_qual_print_order_counterexample:
  "set_iteration insertion_iteration \<and>
   parse ''_Z1fKVi'' = Inr (Function (Name ''f'') [CvQual (Name ''int'') {''const'', ''volatile''}]) \<and>
   str_node insertion_iteration (CvQual (Name ''int'') {''const'', ''volatile''}) = Inr ''int volatile const'' \<and>
   str_node insertion_iteration (CvQual (Name ''int'') {''const'', ''volatile''}) \<noteq> Inr ''int const volatile''"
  by code_simp

text \<open>
  Claim C5, amended: printing a \<^verbatim>\<open>cv_qual\<close> node yields the pointee's print followed by
  the words of its qualifier set, separated by spaces, each word once, in the order in
  which the set is iterated; with a single qualifier the print is the pointee's print, a
  space and the word. The node built from the qualifier letters depends only on which
  letters occur, not on their order or number.
\<close>

theorem cv_qual_print:
  assumes "set_iteration iter" and "qual \<subseteq> set qualifier_words"
  shows "str_node iter (CvQual v qual) =
           (case str_node iter v of Inl e \<Rightarrow> Inl e | Inr s \<Rightarrow> Inr (join '' '' (s # iter qual))) \<and>
         set (iter qual) = qual \<and> distinct (iter qual) \<and>
         (\<forall>w\<in>set qualifier_words.
            str_node iter (CvQual v {w}) =
              (case str_node iter v of Inl e \<Rightarrow> Inl e | Inr s \<Rightarrow> Inr (s @ '' '' @ w))) \<and>
         (\<forall>letters letters'. set letters = set letters' \<longrightarrow> handle_cv letters v = handle_cv letters' v)"
proof (intro conjI ballI allI impI)
  show "str_node iter (CvQual v qual) =
          (case str_node iter v of Inl e \<Rightarrow> Inl e | Inr s \<Rightarrow> Inr (join '' '' (s # iter qual)))"
    by simp
  show "set (iter qual) = qual" and "distinct (iter qual)"
    using set_iteration_subset [OF assms] by simp_all
next
  fix w assume "w \<in> set qualifier_words"
  with assms(1) have "iter {w} = [w]" by (rule set_iteration_single)
  then show "str_node iter (CvQual v {w}) =
          (case str_node iter v of Inl e \<Rightarrow> Inl e | Inr s \<Rightarrow> Inr (s @ '' '' @ w))"
    by (simp split: sum.splits)
next
  fix letters letters' :: string
  assume "set letters = set letters'"
  then show "handle_cv letters v = handle_cv letters' v" by (rule handle_cv_set)
qed

theorem cv_qual_print_witness:
  "set_iteration canonical_iteration \<and> {''const'', ''volatile''} \<subseteq> set qualifier_words \<and>
   str_node canonical_iteration (CvQual (Name ''int'') {''const'', ''volatile''}) = Inr ''int const volatile'' \<and>
   handle_cv ''KV'' (Name ''int'') = handle_cv ''VKV'' (Name ''int'')"
proof -
  have h: "{''const'', ''volatile''} \<subseteq> set qualifier_words" by (simp add: qualifier_words_def)
  have i: "canonical_iteration {''const'', ''volatile''} = [''const'', ''volatile'']" by code_simp
  have s: "set ''KV'' = set ''VKV''" by auto
  from cv_qual_print [OF set_iteration_canonical h, of "Name ''int''"] set_iteration_canonical h i s
  show ?thesis by simp
qed

subsection \<open>The shape of the nodes that the productions build\<close>

text \<open>
  \<open>all_nodes P n\<close> says that \<open>P\<close> holds of \<open>n\<close> and of every node below it. The three
  properties of a single node are that a \<^verbatim>\<open>cv_qual\<close> node has a qualifier, that a
  \<^verbatim>\<open>function\<close> node has an argument, and that a \<^verbatim>\<open>qual_name\<close> node has an element. The
  productions are followed once, by the induction that their termination gives, for the
  three properties together; the flag \<open>strict\<close> says whether the property of the
  \<^verbatim>\<open>qual_name\<close> nodes is asked.
\<close>

fun all_nodes :: "(node \<Rightarrow> bool) \<Rightarrow> node \<Rightarrow> bool" where
  "all_nodes P PyNone = P PyNone"
| "all_nodes P (Name v) = P (Name v)"
| "all_nodes P (QualName vs) = (P (QualName vs) \<and> list_all (all_nodes P) vs)"
| "all_nodes P (TplArgs vs) = (P (TplArgs vs) \<and> list_all (all_nodes P) vs)"
| "all_nodes P (Ctor v) = P (Ctor v)"
| "all_nodes P (Dtor v) = P (Dtor v)"
| "all_nodes P (Operator v) = P (Operator v)"
| "all_nodes P (Pointer v) = (P (Pointer v) \<and> all_nodes P v)"
| "all_nodes P (LValue v) = (P (LValue v) \<and> all_nodes P v)"
| "all_nodes P (RValue v) = (P (RValue v) \<and> all_nodes P v)"
| "all_nodes P (Function name args) =
     (P (Function name args) \<and> all_nodes P name \<and> list_all (all_nodes P) args)"
| "all_nodes P (TplParam v) = P (TplParam v)"
| "all_nodes P (Vtable v) = (P (Vtable v) \<and> all_nodes P v)"
| "all_nodes P (Vtt v) = (P (Vtt v) \<and> all_nodes P v)"
| "all_nodes P (Typeinfo v) = (P (Typeinfo v) \<and> all_nodes P v)"
| "all_nodes P (TypeinfoName v) = (P (TypeinfoName v) \<and> all_nodes P v)"
| "all_nodes P (CvQual v qual) = (P (CvQual v qual) \<and> all_nodes P v)"
| "all_nodes P (Literal v ty) = (P (Literal v ty) \<and> all_nodes P ty)"

definition cv_qual_nonempty :: "node \<Rightarrow> bool" where
  "cv_qual_nonempty n = (case n of CvQual v qual \<Rightarrow> qual \<noteq> {} | _ \<Rightarrow> True)"

definition function_has_args :: "node \<Rightarrow> bool" where
  "function_has_args n = (case n of Function name args \<Rightarrow> args \<noteq> [] | _ \<Rightarrow> True)"

definition qual_name_nonempty :: "node \<Rightarrow> bool" where
  "qual_name_nonempty n = (case n of QualName vs \<Rightarrow> vs \<noteq> [] | _ \<Rightarrow> True)"

definition built :: "bool \<Rightarrow> node \<Rightarrow> bool" where
  "built strict n =
     (cv_qual_nonempty n \<and> function_has_args n \<and> (strict \<longrightarrow> qual_name_nonempty n))"

lemma built_simps [simp]:
  "built strict PyNone" "built strict (Name v)" "built strict (TplArgs vs)"
  "built strict (Ctor v)" "built strict (Dtor v)" "built strict (Operator v)"
  "built strict (Pointer n)" "built strict (LValue n)" "built strict (RValue n)"
  "built strict (TplParam i)" "built strict (Vtable n)" "built strict (Vtt n)"
  "built strict (Typeinfo n)" "built strict (TypeinfoName n)" "built strict (Literal v n)"
  "built strict (QualName vs) = (strict \<longrightarrow> vs \<noteq> [])"
  "built strict (Function n args) = (args \<noteq> [])"
  "built strict (CvQual n qual) = (qual \<noteq> {})"
  by (simp_all add: built_def cv_qual_nonempty_def function_has_args_def qual_name_nonempty_def)

lemma all_nodes_mono:
  assumes "\<And>n. P n \<Longrightarrow> Q n"
  shows "all_nodes P n \<Longrightarrow> all_nodes Q n"
  by (induction n) (auto simp: assms list_all_iff)

lemma handle_cv_cases:
  "handle_cv letters n = n \<or> (\<exists>qual. handle_cv letters n = CvQual n qual \<and> qual \<noteq> {})"
  by (simp add: handle_cv_def Let_def)

lemma handle_indirect_cases:
  "handle_indirect q n \<in> {n, Pointer n, LValue n, RValue n}"
  by (simp add: handle_indirect_def)

lemma std_names_built:
  "dict_get std_names k = Inr v \<Longrightarrow> v \<noteq> [] \<and> list_all (all_nodes (built strict)) v"
  by (auto simp: dict_get_def std_names_def split: option.splits if_splits)

lemma parse_shorter:
  shows "parse_name c = Inr (n, r) \<Longrightarrow>
           length r \<le> length c \<and> (n \<noteq> PyNone \<longrightarrow> length r < length c)"
    and "parse_name_dispatch m c = Inr (n, r) \<Longrightarrow> length r \<le> length c"
    and "parse_type c = Inr (n, r) \<Longrightarrow>
           length r \<le> length c \<and> (n \<noteq> PyNone \<longrightarrow> length r < length c)"
    and "parse_special c = Inr (n, r) \<Longrightarrow> length r \<le> length c"
  using parse_consumes(1) [of c] parse_consumes(2) [of c m]
        parse_consumes(3) [of c] parse_consumes(5) [of c]
  by (auto simp: suffix_def)

text \<open>
  A nested name that is closed at once is the text \<^verbatim>\<open>N\<close>, qualifier letters and an optional
  \<^verbatim>\<open>R\<close> or \<^verbatim>\<open>O\<close>, followed by \<^verbatim>\<open>E\<close>, at a place where \<^verbatim>\<open>_parse_name\<close> is called: the branch
  \<^verbatim>\<open>nested_name\<close> then calls \<^verbatim>\<open>_parse_until_end\<close> on a text that starts with \<^verbatim>\<open>E\<close>. Whether this
  happens depends on where the productions are called and not only on the text: in
  \<^verbatim>\<open>_Z4LINEv\<close> the letters \<^verbatim>\<open>NE\<close> are part of a source name.

  \<open>empty_nested_in_name c\<close> says that \<^verbatim>\<open>_parse_name\<close>, called at the cursor \<open>c\<close>, enters such a
  nested name, itself or in a production that it calls; there is one such function for
  each production. Each one has the branches of its production and, where the production
  calls another one, asks the same question of this call, at the cursor at which the
  production makes the call; it is true in the branch \<^verbatim>\<open>nested_name\<close> when
  \<^verbatim>\<open>cursor.accept('E')\<close> succeeds there, and false where the production returns without
  another call. The functions do not look at the nodes, only at whether a production
  returned \<^verbatim>\<open>None\<close>, as the productions do.
\<close>

function
  empty_nested_in_name :: "cursor \<Rightarrow> bool" and
  empty_nested_in_name_dispatch :: "name_match \<Rightarrow> cursor \<Rightarrow> bool" and
  empty_nested_in_type :: "cursor \<Rightarrow> bool" and
  empty_nested_in_expr_primary :: "cursor \<Rightarrow> bool" and
  empty_nested_in_special :: "cursor \<Rightarrow> bool" and
  empty_nested_in_mangled_name :: "cursor \<Rightarrow> bool" and
  empty_nested_in_arg_types :: "cursor \<Rightarrow> bool" and
  empty_nested_in_until_end :: "production \<Rightarrow> cursor \<Rightarrow> bool"
where
  "empty_nested_in_name cursor =
     (case NAME_RE cursor of
        None \<Rightarrow> False
      | Some (m, c1) \<Rightarrow>
          if empty_nested_in_name_dispatch m c1 then True
          else (case parse_name_dispatch m c1 of
                  Inl e \<Rightarrow> False
                | Inr (node, c2) \<Rightarrow>
                    if node = PyNone then False
                    else (case accept ''I'' c2 of
                            None \<Rightarrow> False
                          | Some c3 \<Rightarrow> empty_nested_in_until_end Fn_parse_type c3)))"
| "empty_nested_in_name_dispatch m cursor =
     (case m of
        Source_name length_text \<Rightarrow> False
      | Ctor_name k \<Rightarrow> False
      | Dtor_name k \<Rightarrow> False
      | Std_name k \<Rightarrow> False
      | Operator_name k \<Rightarrow> False
      | Std_prefix \<Rightarrow> empty_nested_in_name cursor
      | Nested_name cv_qual ref_qual \<Rightarrow>
          (case accept ''E'' cursor of
             Some c1 \<Rightarrow> True
           | None \<Rightarrow> empty_nested_in_until_end Fn_parse_name cursor)
      | Template_args \<Rightarrow> empty_nested_in_until_end Fn_parse_type cursor)"
| "empty_nested_in_type cursor =
     (case TYPE_RE cursor of
        None \<Rightarrow> empty_nested_in_name cursor
      | Some (m, c1) \<Rightarrow>
          (case m of
             Builtin_type k \<Rightarrow> False
           | Qualified_type qualifiers \<Rightarrow> empty_nested_in_type c1
           | Template_param \<Rightarrow> False
           | Indirect_type qualifier \<Rightarrow> empty_nested_in_type c1
           | Expr_primary \<Rightarrow> empty_nested_in_expr_primary c1))"
| "empty_nested_in_expr_primary cursor =
     (case EXPR_PRIMARY_RE cursor of
        None \<Rightarrow> False
      | Some (m, c1) \<Rightarrow>
          (case m of
             Mangled_name \<Rightarrow>
               (case advance_until ''E'' c1 of
                  None \<Rightarrow> False
                | Some (mangled_name, c2) \<Rightarrow> empty_nested_in_mangled_name mangled_name)
           | Literal_value \<Rightarrow> empty_nested_in_type c1))"
| "empty_nested_in_special cursor =
     (case SPECIAL_RE cursor of
        None \<Rightarrow> False
      | Some (kind, c1) \<Rightarrow> empty_nested_in_type c1)"
| "empty_nested_in_mangled_name cursor =
     (case MANGLED_NAME_RE cursor of
        None \<Rightarrow> False
      | Some c1 \<Rightarrow>
          if empty_nested_in_special c1 then True
          else (case parse_special c1 of
                  Inl e \<Rightarrow> False
                | Inr (special, c2) \<Rightarrow>
                    if special \<noteq> PyNone then False
                    else if empty_nested_in_name c2 then True
                    else (case parse_name c2 of
                            Inl e \<Rightarrow> False
                          | Inr (name, c3) \<Rightarrow>
                              if name = PyNone then False
                              else empty_nested_in_arg_types c3)))"
| "empty_nested_in_arg_types cursor =
     (if at_end cursor then False
      else if empty_nested_in_type cursor then True
      else (case parse_type cursor of
              Inl e \<Rightarrow> False
            | Inr (arg_type, c1) \<Rightarrow>
                if arg_type = PyNone then False
                else empty_nested_in_arg_types c1))"
| "empty_nested_in_until_end fn cursor =
     (case accept ''E'' cursor of
        Some c1 \<Rightarrow> False
      | None \<Rightarrow>
          if (case fn of
                Fn_parse_name \<Rightarrow> empty_nested_in_name cursor
              | Fn_parse_type \<Rightarrow> empty_nested_in_type cursor) then True
          else (case (case fn of Fn_parse_name \<Rightarrow> parse_name cursor | Fn_parse_type \<Rightarrow> parse_type cursor) of
                  Inl e \<Rightarrow> False
                | Inr (node, c1) \<Rightarrow>
                    if node = PyNone \<or> at_end c1 then False
                    else empty_nested_in_until_end fn c1))"
  by pat_completeness auto

definition empty_nested_measure ::
  "((cursor + name_match \<times> cursor) + cursor + cursor) + (cursor + cursor) +
   cursor + production \<times> cursor \<Rightarrow> nat" where
  "empty_nested_measure call =
     (case call of
        Inl (Inl (Inl c)) \<Rightarrow> 4 * length c
      | Inl (Inl (Inr (m, c))) \<Rightarrow> 4 * length c + 3
      | Inl (Inr (Inl c)) \<Rightarrow> 4 * length c + 1
      | Inl (Inr (Inr c)) \<Rightarrow> 4 * length c
      | Inr (Inl (Inl c)) \<Rightarrow> 4 * length c
      | Inr (Inl (Inr c)) \<Rightarrow> 4 * length c
      | Inr (Inr (Inl c)) \<Rightarrow> 4 * length c + 2
      | Inr (Inr (Inr (f, c))) \<Rightarrow> 4 * length c + 2)"

termination empty_nested_in_name
  apply (relation "measure empty_nested_measure")
  apply (auto simp: empty_nested_measure_def
         dest: NAME_RE_shorter TYPE_RE_shorter TYPE_RE_Expr_primary SPECIAL_RE_Some
               MANGLED_NAME_RE_Some EXPR_PRIMARY_RE_Some advance_until_text_shorter
               accept_Some parse_shorter)
  subgoal for cursor a b aa ba x2a
    using NAME_RE_shorter [of cursor a b] parse_shorter(2) [of a b aa ba]
          accept_Some [of "''I''" ba x2a]
    by simp
  subgoal for cursor b aa ba
    using EXPR_PRIMARY_RE_Some [of cursor Mangled_name b]
          advance_until_text_shorter [of "CHR ''E''" b aa ba]
    by simp
  subgoal for cursor x2 b
    using MANGLED_NAME_RE_Some [of cursor x2] parse_shorter(4) [of x2 PyNone b]
    by simp
  subgoal for cursor x2 b aa ba
    using MANGLED_NAME_RE_Some [of cursor x2] parse_shorter(4) [of x2 PyNone b]
          parse_shorter(1) [of b aa ba]
    by simp
  subgoal for fn cursor a b
    using parse_shorter(1) [of cursor a b] parse_shorter(3) [of cursor a b]
    by (cases fn) simp_all
  done

declare empty_nested_in_name.simps [simp del] empty_nested_in_name_dispatch.simps [simp del]
  empty_nested_in_type.simps [simp del] empty_nested_in_expr_primary.simps [simp del]
  empty_nested_in_special.simps [simp del] empty_nested_in_mangled_name.simps [simp del]
  empty_nested_in_arg_types.simps [simp del] empty_nested_in_until_end.simps [simp del]

definition produces :: "(node \<Rightarrow> bool) \<Rightarrow> exn + node \<times> cursor \<Rightarrow> bool" where
  "produces P res = (case res of Inl e \<Rightarrow> True | Inr (n, r) \<Rightarrow> all_nodes P n)"

definition produces_list :: "(node \<Rightarrow> bool) \<Rightarrow> exn + node list option \<times> cursor \<Rightarrow> bool" where
  "produces_list P res =
     (case res of
        Inl e \<Rightarrow> True
      | Inr (None, r) \<Rightarrow> True
      | Inr (Some ns, r) \<Rightarrow> list_all (all_nodes P) ns)"

lemma produces_simps [simp]:
  "produces P (Inl e)"
  "produces P (Inr (n, r)) = all_nodes P n"
  by (simp_all add: produces_def)

lemma produces_list_simps [simp]:
  "produces_list P (Inl e)"
  "produces_list P (Inr (None, r))"
  "produces_list P (Inr (Some ns, r)) = list_all (all_nodes P) ns"
  by (simp_all add: produces_list_def)

lemma handle_cv_built:
  assumes "all_nodes (built strict) n"
  shows "all_nodes (built strict) (handle_cv letters n)"
  using handle_cv_cases [of letters n] assms by auto

lemma handle_indirect_built:
  assumes "all_nodes (built strict) n"
  shows "all_nodes (built strict) (handle_indirect q n)"
  using assms by (simp add: handle_indirect_def)

lemma std_prefixed_built:
  assumes "all_nodes (built strict) n"
  shows "all_nodes (built strict) (std_prefixed n)"
  using assms by (cases n) (simp_all add: std_prefixed_def)

lemma special_node_built:
  assumes "all_nodes (built strict) n"
  shows "all_nodes (built strict) (special_node kind n)"
  using assms by (simp add: special_node_def)

lemma list_node_built:
  assumes "list_all (all_nodes (built strict)) ns"
    and "strict \<longrightarrow> kind = Kind_qual_name \<longrightarrow> ns \<noteq> []"
  shows "all_nodes (built strict) (list_node kind ns)"
  using assms by (cases kind) (simp_all add: list_node_def)

lemma parse_source_name_built:
  "parse_source_name c l = (n, r) \<Longrightarrow> all_nodes (built strict) n"
  by (auto simp: parse_source_name_def Let_def split: prod.splits option.splits)

lemma parse_built:
  fixes strict :: bool
  shows "strict \<longrightarrow> \<not> empty_nested_in_name c \<Longrightarrow> produces (built strict) (parse_name c)"
    and "strict \<longrightarrow> \<not> empty_nested_in_name_dispatch m c \<Longrightarrow>
           produces (built strict) (parse_name_dispatch m c)"
    and "strict \<longrightarrow> \<not> empty_nested_in_type c \<Longrightarrow> produces (built strict) (parse_type c)"
    and "strict \<longrightarrow> \<not> empty_nested_in_expr_primary c \<Longrightarrow>
           produces (built strict) (parse_expr_primary c)"
    and "strict \<longrightarrow> \<not> empty_nested_in_special c \<Longrightarrow> produces (built strict) (parse_special c)"
    and "strict \<longrightarrow> \<not> empty_nested_in_mangled_name c \<Longrightarrow>
           produces (built strict) (parse_mangled_name c)"
    and "strict \<longrightarrow> \<not> empty_nested_in_arg_types c \<Longrightarrow> list_all (all_nodes (built strict)) a \<Longrightarrow>
           produces_list (built strict) (parse_arg_types c a)"
    and "strict \<longrightarrow> \<not> empty_nested_in_until_end f c \<Longrightarrow> list_all (all_nodes (built strict)) ns \<Longrightarrow>
           strict \<longrightarrow> k = Kind_qual_name \<longrightarrow> ns = [] \<longrightarrow> accept ''E'' c = None \<Longrightarrow>
           produces (built strict) (parse_until_end k f c ns)"
proof (induction c and m c and c and c and c and c and c a and k f c ns
    rule: parse_name_parse_name_dispatch_parse_type_parse_expr_primary_parse_special_parse_mangled_name_parse_arg_types_parse_until_end.induct)
  case (1 cursor)
  show ?case
  proof (cases "NAME_RE cursor")
    case None
    then show ?thesis by (subst parse_name.simps) simp
  next
    case (Some x2)
    obtain m c1 where x2: "x2 = (m, c1)" by (cases x2)
    note re = Some [unfolded x2]
    from "1.prems" have ok1: "strict \<longrightarrow> \<not> empty_nested_in_name_dispatch m c1"
      by (subst (asm) empty_nested_in_name.simps) (simp add: re split: if_splits)
    have w: "produces (built strict) (parse_name_dispatch m c1)"
      by (rule "1.IH"(1) [OF re refl ok1])
    show ?thesis
    proof (cases "parse_name_dispatch m c1")
      case (Inl e)
      then show ?thesis by (subst parse_name.simps) (simp add: re)
    next
      case (Inr b)
      obtain node c2 where b: "b = (node, c2)" by (cases b)
      note d = Inr [unfolded b]
      from w d have wn: "all_nodes (built strict) node" by simp
      show ?thesis
      proof (cases "node = PyNone")
        case True
        then show ?thesis by (subst parse_name.simps) (simp add: re d)
      next
        case False
        show ?thesis
        proof (cases "accept ''I'' c2")
          case None
          then show ?thesis using False wn by (subst parse_name.simps) (simp add: re d)
        next
          case (Some c3)
          from "1.prems" False have ok3: "strict \<longrightarrow> \<not> empty_nested_in_until_end Fn_parse_type c3"
            by (subst (asm) empty_nested_in_name.simps) (simp add: re d Some split: if_splits)
          have u: "produces (built strict) (parse_until_end Kind_tpl_args Fn_parse_type c3 [])"
            by (rule "1.IH"(2) [OF re refl d refl False Some ok3]) simp_all
          show ?thesis using False wn u
            by (subst parse_name.simps) (auto simp: re d Some split: sum.splits)
        qed
      qed
    qed
  qed
next
  case (2 m cursor)
  note eq = parse_name_dispatch.simps [of m cursor]
  show ?case
  proof (cases m)
    case (Source_name l)
    show ?thesis unfolding eq using Source_name
      by (cases "parse_source_name cursor l") (simp add: parse_source_name_built)
  next
    case Std_prefix
    from "2.prems" have ok: "strict \<longrightarrow> \<not> empty_nested_in_name cursor"
      by (subst (asm) empty_nested_in_name_dispatch.simps) (simp add: Std_prefix)
    from "2.IH"(1) [OF Std_prefix ok] show ?thesis unfolding eq using Std_prefix
      by (auto simp: std_prefixed_built split: sum.splits)
  next
    case (Nested_name cv rf)
    from "2.prems" have ok: "strict \<longrightarrow> \<not> empty_nested_in_until_end Fn_parse_name cursor"
      by (subst (asm) empty_nested_in_name_dispatch.simps)
        (simp add: Nested_name split: option.splits)
    from "2.prems" have nc: "strict \<longrightarrow> accept ''E'' cursor = None"
      by (subst (asm) empty_nested_in_name_dispatch.simps)
        (simp add: Nested_name split: option.splits)
    have "produces (built strict) (parse_until_end Kind_qual_name Fn_parse_name cursor [])"
      using nc by (intro "2.IH"(2) [OF Nested_name ok]) simp_all
    then show ?thesis unfolding eq using Nested_name
      by (auto simp: handle_cv_built handle_indirect_built split: sum.splits)
  next
    case Template_args
    from "2.prems" have ok: "strict \<longrightarrow> \<not> empty_nested_in_until_end Fn_parse_type cursor"
      by (subst (asm) empty_nested_in_name_dispatch.simps) (simp add: Template_args)
    have "produces (built strict) (parse_until_end Kind_tpl_args Fn_parse_type cursor [])"
      by (intro "2.IH"(3) [OF Template_args ok]) simp_all
    then show ?thesis unfolding eq using Template_args by simp
  next
    case (Ctor_name k)
    show ?thesis unfolding eq using Ctor_name by (auto split: sum.splits)
  next
    case (Dtor_name k)
    show ?thesis unfolding eq using Dtor_name by (auto split: sum.splits)
  next
    case (Std_name k)
    show ?thesis unfolding eq using Std_name std_names_built [of k _ strict]
      by (auto split: sum.splits)
  next
    case (Operator_name k)
    show ?thesis unfolding eq using Operator_name by (auto split: sum.splits)
  qed
next
  case (3 cursor)
  show ?case
  proof (cases "TYPE_RE cursor")
    case None
    from "3.prems" have ok: "strict \<longrightarrow> \<not> empty_nested_in_name cursor"
      by (subst (asm) empty_nested_in_type.simps) (simp add: None)
    from "3.IH"(1) [OF None ok] show ?thesis using None
      by (subst parse_type.simps) simp
  next
    case (Some x2)
    obtain m c1 where x2: "x2 = (m, c1)" by (cases x2)
    note re = Some [unfolded x2]
    show ?thesis
    proof (cases m)
      case (Builtin_type k)
      then show ?thesis
        by (subst parse_type.simps) (auto simp: re split: sum.splits)
    next
      case (Qualified_type q)
      from "3.prems" have ok: "strict \<longrightarrow> \<not> empty_nested_in_type c1"
        by (subst (asm) empty_nested_in_type.simps) (simp add: re Qualified_type)
      from "3.IH"(2) [OF re refl Qualified_type ok] show ?thesis using Qualified_type
        by (subst parse_type.simps) (auto simp: re handle_cv_built split: sum.splits)
    next
      case Template_param
      then show ?thesis
        by (subst parse_type.simps) (auto simp: re split: sum.splits option.splits)
    next
      case (Indirect_type q)
      from "3.prems" have ok: "strict \<longrightarrow> \<not> empty_nested_in_type c1"
        by (subst (asm) empty_nested_in_type.simps) (simp add: re Indirect_type)
      from "3.IH"(3) [OF re refl Indirect_type ok] show ?thesis using Indirect_type
        by (subst parse_type.simps) (auto simp: re handle_indirect_built split: sum.splits)
    next
      case Expr_primary
      from "3.prems" have ok: "strict \<longrightarrow> \<not> empty_nested_in_expr_primary c1"
        by (subst (asm) empty_nested_in_type.simps) (simp add: re Expr_primary)
      from "3.IH"(4) [OF re refl Expr_primary ok] show ?thesis using Expr_primary
        by (subst parse_type.simps) (simp add: re)
    qed
  qed
next
  case (4 cursor)
  show ?case
  proof (cases "EXPR_PRIMARY_RE cursor")
    case None
    then show ?thesis by (subst parse_expr_primary.simps) simp
  next
    case (Some x2)
    obtain m c1 where x2: "x2 = (m, c1)" by (cases x2)
    note re = Some [unfolded x2]
    show ?thesis
    proof (cases m)
      case Mangled_name
      show ?thesis
      proof (cases "advance_until ''E'' c1")
        case None
        then show ?thesis using Mangled_name
          by (subst parse_expr_primary.simps) (simp add: re)
      next
        case (Some x)
        obtain t c2 where x: "x = (t, c2)" by (cases x)
        note au = Some [unfolded x]
        from "4.prems" have ok: "strict \<longrightarrow> \<not> empty_nested_in_mangled_name t"
          by (subst (asm) empty_nested_in_expr_primary.simps) (simp add: re Mangled_name au)
        from "4.IH"(1) [OF re refl Mangled_name au refl ok] show ?thesis using Mangled_name
          by (subst parse_expr_primary.simps) (auto simp: re au split: sum.splits)
      qed
    next
      case Literal_value
      from "4.prems" have ok: "strict \<longrightarrow> \<not> empty_nested_in_type c1"
        by (subst (asm) empty_nested_in_expr_primary.simps) (simp add: re Literal_value)
      from "4.IH"(2) [OF re refl Literal_value ok] show ?thesis using Literal_value
        by (subst parse_expr_primary.simps) (auto simp: re split: sum.splits option.splits)
    qed
  qed
next
  case (5 cursor)
  show ?case
  proof (cases "SPECIAL_RE cursor")
    case None
    then show ?thesis by (subst parse_special.simps) simp
  next
    case (Some x2)
    obtain k c1 where x2: "x2 = (k, c1)" by (cases x2)
    note re = Some [unfolded x2]
    from "5.prems" have ok: "strict \<longrightarrow> \<not> empty_nested_in_type c1"
      by (subst (asm) empty_nested_in_special.simps) (simp add: re)
    from "5.IH" [OF re refl ok] show ?thesis
      by (subst parse_special.simps) (auto simp: re special_node_built split: sum.splits)
  qed
next
  case (6 cursor)
  show ?case
  proof (cases "MANGLED_NAME_RE cursor")
    case None
    then show ?thesis by (subst parse_mangled_name.simps) simp
  next
    case (Some c1)
    from "6.prems" have ok1: "strict \<longrightarrow> \<not> empty_nested_in_special c1"
      by (subst (asm) empty_nested_in_mangled_name.simps) (simp add: Some split: if_splits)
    have sp: "produces (built strict) (parse_special c1)" by (rule "6.IH"(1) [OF Some ok1])
    show ?thesis
    proof (cases "parse_special c1")
      case (Inl e)
      then show ?thesis by (subst parse_mangled_name.simps) (simp add: Some)
    next
      case (Inr b)
      obtain special c2 where b: "b = (special, c2)" by (cases b)
      note d = Inr [unfolded b]
      show ?thesis
      proof (cases "special = PyNone")
        case False
        then show ?thesis using sp d
          by (subst parse_mangled_name.simps) (simp add: Some)
      next
        case True
        then have nn: "\<not> special \<noteq> PyNone" by simp
        from "6.prems" True have ok2: "strict \<longrightarrow> \<not> empty_nested_in_name c2"
          by (subst (asm) empty_nested_in_mangled_name.simps) (simp add: Some d split: if_splits)
        have nm: "produces (built strict) (parse_name c2)"
          by (rule "6.IH"(2) [OF Some d refl nn ok2])
        show ?thesis
        proof (cases "parse_name c2")
          case (Inl e)
          then show ?thesis using True by (subst parse_mangled_name.simps) (simp add: Some d)
        next
          case (Inr b')
          obtain name c3 where b': "b' = (name, c3)" by (cases b')
          note d' = Inr [unfolded b']
          from nm d' have wn: "all_nodes (built strict) name" by simp
          show ?thesis
          proof (cases "name = PyNone")
            case True
            then show ?thesis using \<open>special = PyNone\<close>
              by (subst parse_mangled_name.simps) (simp add: Some d d')
          next
            case False
            from "6.prems" False \<open>special = PyNone\<close>
            have ok3: "strict \<longrightarrow> \<not> empty_nested_in_arg_types c3"
              by (subst (asm) empty_nested_in_mangled_name.simps)
                (simp add: Some d d' split: if_splits)
            have "produces_list (built strict) (parse_arg_types c3 [])"
              by (rule "6.IH"(3) [OF Some d refl nn d' refl False ok3]) simp
            then show ?thesis using False \<open>special = PyNone\<close> wn
              by (subst parse_mangled_name.simps)
                (auto simp: Some d d' split: sum.splits option.splits)
          qed
        qed
      qed
    qed
  qed
next
  case (7 cursor arg_types)
  show ?case
  proof (cases "at_end cursor")
    case True
    then show ?thesis using "7.prems" by (subst parse_arg_types.simps) simp
  next
    case False
    from "7.prems"(1) False have ok: "strict \<longrightarrow> \<not> empty_nested_in_type cursor"
      by (subst (asm) empty_nested_in_arg_types.simps) (simp split: if_splits)
    have t: "produces (built strict) (parse_type cursor)" by (rule "7.IH"(1) [OF False ok])
    show ?thesis
    proof (cases "parse_type cursor")
      case (Inl e)
      then show ?thesis using False by (subst parse_arg_types.simps) simp
    next
      case (Inr b)
      obtain ty c1 where b: "b = (ty, c1)" by (cases b)
      note d = Inr [unfolded b]
      from t d have wt: "all_nodes (built strict) ty" by simp
      show ?thesis
      proof (cases "ty = PyNone")
        case True
        then show ?thesis using False by (subst parse_arg_types.simps) (simp add: d)
      next
        case ne: False
        from "7.prems"(1) False ne have ok1: "strict \<longrightarrow> \<not> empty_nested_in_arg_types c1"
          by (subst (asm) empty_nested_in_arg_types.simps) (simp add: d split: if_splits)
        have "produces_list (built strict) (parse_arg_types c1 (arg_types @ [ty]))"
          using "7.prems"(2) wt by (intro "7.IH"(2) [OF False d refl ne ok1]) simp
        then show ?thesis using False ne by (subst parse_arg_types.simps) (simp add: d)
      qed
    qed
  qed
next
  case (8 kind fn cursor nodes)
  show ?case
  proof (cases "accept ''E'' cursor")
    case (Some c1)
    have "all_nodes (built strict) (list_node kind nodes)"
      using "8.prems"(2,3) Some by (intro list_node_built) auto
    then show ?thesis
      by (subst parse_until_end.simps) (simp add: Some)
  next
    case None
    let ?call = "case fn of Fn_parse_name \<Rightarrow> parse_name cursor | Fn_parse_type \<Rightarrow> parse_type cursor"
    let ?enters = "case fn of
        Fn_parse_name \<Rightarrow> empty_nested_in_name cursor
      | Fn_parse_type \<Rightarrow> empty_nested_in_type cursor"
    from "8.prems"(1) have ok: "strict \<longrightarrow> \<not> ?enters"
      by (subst (asm) empty_nested_in_until_end.simps) (simp add: None split: if_splits)
    have t: "produces (built strict) ?call"
      using "8.IH"(1) [OF None] "8.IH"(2) [OF None] ok by (cases fn) simp_all
    show ?thesis
    proof (cases ?call)
      case (Inl e)
      then show ?thesis by (subst parse_until_end.simps) (simp add: None)
    next
      case (Inr b)
      obtain node c1 where b: "b = (node, c1)" by (cases b)
      note d = Inr [unfolded b]
      from t d have wn: "all_nodes (built strict) node" by simp
      show ?thesis
      proof (cases "node = PyNone \<or> at_end c1")
        case True
        then show ?thesis by (subst parse_until_end.simps) (simp add: None d)
      next
        case False
        from "8.prems"(1) False have ok1: "strict \<longrightarrow> \<not> empty_nested_in_until_end fn c1"
          by (subst (asm) empty_nested_in_until_end.simps) (simp add: None d split: if_splits)
        have "produces (built strict) (parse_until_end kind fn c1 (nodes @ [node]))"
          using "8.prems"(2) wn by (intro "8.IH"(3) [OF None d refl False ok1]) simp_all
        then show ?thesis using False by (subst parse_until_end.simps) (simp add: None d)
      qed
    qed
  qed
qed

text \<open>
  What the functions \<open>empty_nested_in_name\<close> and the others find is in the text. The pattern
  of \<^verbatim>\<open>_parse_name\<close> matches a nested name followed by \<^verbatim>\<open>E\<close> at the start of a text when
  \<open>empty_nested_at\<close> holds, and at some position of it when \<open>has_empty_nested\<close> holds. A
  production that enters a nested name closed at once has been called on a text with
  such a position; the text of a mangled name inside a literal has no \<^verbatim>\<open>E\<close>, so that no such
  name is entered there. The converse does not hold, since the productions do not call
  \<^verbatim>\<open>_parse_name\<close> at every position.
\<close>

definition empty_nested_at :: "string \<Rightarrow> bool" where
  "empty_nested_at s =
     (case NAME_RE s of
        Some (Nested_name cv_qual ref_qual, c1) \<Rightarrow> take 1 c1 = ''E''
      | _ \<Rightarrow> False)"

fun has_empty_nested :: "string \<Rightarrow> bool" where
  "has_empty_nested [] = False"
| "has_empty_nested (c # cs) = (empty_nested_at (c # cs) \<or> has_empty_nested cs)"

lemma has_empty_nested_suffix: "suffix r s \<Longrightarrow> has_empty_nested r \<Longrightarrow> has_empty_nested s"
proof (induction s)
  case Nil
  then show ?case by simp
next
  case (Cons c cs)
  from Cons.prems(1) have "r = c # cs \<or> suffix r cs" by (simp add: suffix_Cons)
  with Cons show ?case by auto
qed

lemma empty_nested_atD:
  assumes "empty_nested_at s"
  shows "\<exists>cv rf c1. NAME_RE s = Some (Nested_name cv rf, c1) \<and> take 1 c1 = ''E''"
proof -
  from assms obtain m c1 where re: "NAME_RE s = Some (m, c1)"
    by (cases "NAME_RE s") (auto simp: empty_nested_at_def)
  with assms show ?thesis by (cases m) (simp_all add: empty_nested_at_def)
qed

lemma empty_nested_at_E: "empty_nested_at s \<Longrightarrow> CHR ''E'' \<in> set s"
proof -
  assume "empty_nested_at s"
  from empty_nested_atD [OF this]
  obtain cv rf c1 where re: "NAME_RE s = Some (Nested_name cv rf, c1)" and t: "take 1 c1 = ''E''"
    by blast
  from t have "CHR ''E'' \<in> set c1" by (cases c1) auto
  with set_mono_suffix [OF NAME_RE_suffix [OF re]] show ?thesis by blast
qed

lemma has_empty_nested_E: "has_empty_nested s \<Longrightarrow> CHR ''E'' \<in> set s"
  by (induction s) (auto dest: empty_nested_at_E)

lemma advance_until_text: "advance_until [d] c = Some (t, r) \<Longrightarrow> d \<notin> set t"
proof (induction c arbitrary: t)
  case Nil
  then show ?case by (subst (asm) advance_until.simps) (simp split: if_splits)
next
  case (Cons a c)
  show ?case
  proof (cases "a = d")
    case True
    with Cons.prems show ?thesis by (subst (asm) advance_until.simps) simp
  next
    case False
    with Cons.prems obtain t' where "advance_until [d] c = Some (t', r)" and "t = a # t'"
      by (subst (asm) advance_until.simps) (auto split: option.splits)
    with Cons.IH False show ?thesis by auto
  qed
qed

lemma empty_nested_atI:
  assumes "NAME_RE s = Some (Nested_name cv rf, c)" and "accept ''E'' c = Some c1"
  shows "has_empty_nested s"
proof -
  from accept_Some [OF assms(2)] have "take 1 c = ''E''" by simp
  with assms(1) have e: "empty_nested_at s" by (simp add: empty_nested_at_def)
  from assms(1) have "s \<noteq> []" by (rule NAME_RE_nonempty)
  with e show ?thesis by (cases s) simp_all
qed

lemma empty_nested_in_text:
  shows "empty_nested_in_name c \<Longrightarrow> has_empty_nested c"
    and "empty_nested_in_name_dispatch m c \<Longrightarrow> \<forall>s. NAME_RE s = Some (m, c) \<longrightarrow> has_empty_nested s"
    and "empty_nested_in_type c \<Longrightarrow> has_empty_nested c"
    and "empty_nested_in_expr_primary c \<Longrightarrow> has_empty_nested c"
    and "empty_nested_in_special c \<Longrightarrow> has_empty_nested c"
    and "empty_nested_in_mangled_name c \<Longrightarrow> has_empty_nested c"
    and "empty_nested_in_arg_types c \<Longrightarrow> has_empty_nested c"
    and "empty_nested_in_until_end f c \<Longrightarrow> has_empty_nested c"
proof (induction c and m c and c and c and c and c and c and f c
    rule: empty_nested_in_name_empty_nested_in_name_dispatch_empty_nested_in_type_empty_nested_in_expr_primary_empty_nested_in_special_empty_nested_in_mangled_name_empty_nested_in_arg_types_empty_nested_in_until_end.induct)
  case (1 cursor)
  show ?case
  proof (cases "NAME_RE cursor")
    case None
    with "1.prems" show ?thesis by (subst (asm) empty_nested_in_name.simps) simp
  next
    case (Some x2)
    obtain m c1 where x2: "x2 = (m, c1)" by (cases x2)
    note re = Some [unfolded x2]
    note s1 = NAME_RE_suffix [OF re]
    show ?thesis
    proof (cases "empty_nested_in_name_dispatch m c1")
      case True
      from "1.IH"(1) [OF re refl True] re show ?thesis by blast
    next
      case False
      from "1.prems" False obtain node c2 c3 where d: "parse_name_dispatch m c1 = Inr (node, c2)"
        and nn: "node \<noteq> PyNone" and acc: "accept ''I'' c2 = Some c3"
        and e: "empty_nested_in_until_end Fn_parse_type c3"
        by (subst (asm) empty_nested_in_name.simps)
          (auto simp: re split: sum.splits option.splits if_splits)
      have h: "has_empty_nested c3" by (rule "1.IH"(2) [OF re refl False d refl nn acc e])
      from parse_consumes(2) [of c1 m] d have s2: "suffix c2 c1" by simp
      from accept_Some [OF acc] have "suffix c3 c2" by (simp add: suffix_def)
      then have "suffix c3 cursor" using s2 s1 by (meson suffix_order.trans)
      then show ?thesis using h by (rule has_empty_nested_suffix)
    qed
  qed
next
  case (2 m cursor)
  show ?case
  proof (intro allI impI)
    fix s assume re: "NAME_RE s = Some (m, cursor)"
    note s1 = NAME_RE_suffix [OF re]
    show "has_empty_nested s"
    proof (cases m)
      case Std_prefix
      from "2.prems" have "empty_nested_in_name cursor"
        by (subst (asm) empty_nested_in_name_dispatch.simps) (simp add: Std_prefix)
      from "2.IH"(1) [OF Std_prefix this] have "has_empty_nested cursor" .
      with s1 show ?thesis by (rule has_empty_nested_suffix)
    next
      case (Nested_name cv rf)
      show ?thesis
      proof (cases "accept ''E'' cursor")
        case (Some c1)
        from re [unfolded Nested_name] Some show ?thesis by (rule empty_nested_atI)
      next
        case None
        from "2.prems" have "empty_nested_in_until_end Fn_parse_name cursor"
          by (subst (asm) empty_nested_in_name_dispatch.simps) (simp add: Nested_name None)
        from "2.IH"(2) [OF Nested_name None this] have "has_empty_nested cursor" .
        with s1 show ?thesis by (rule has_empty_nested_suffix)
      qed
    next
      case Template_args
      from "2.prems" have "empty_nested_in_until_end Fn_parse_type cursor"
        by (subst (asm) empty_nested_in_name_dispatch.simps) (simp add: Template_args)
      from "2.IH"(3) [OF Template_args this] have "has_empty_nested cursor" .
      with s1 show ?thesis by (rule has_empty_nested_suffix)
    next
      case (Source_name l)
      with "2.prems" show ?thesis by (subst (asm) empty_nested_in_name_dispatch.simps) simp
    next
      case (Ctor_name k)
      with "2.prems" show ?thesis by (subst (asm) empty_nested_in_name_dispatch.simps) simp
    next
      case (Dtor_name k)
      with "2.prems" show ?thesis by (subst (asm) empty_nested_in_name_dispatch.simps) simp
    next
      case (Std_name k)
      with "2.prems" show ?thesis by (subst (asm) empty_nested_in_name_dispatch.simps) simp
    next
      case (Operator_name k)
      with "2.prems" show ?thesis by (subst (asm) empty_nested_in_name_dispatch.simps) simp
    qed
  qed
next
  case (3 cursor)
  show ?case
  proof (cases "TYPE_RE cursor")
    case None
    from "3.prems" have "empty_nested_in_name cursor"
      by (subst (asm) empty_nested_in_type.simps) (simp add: None)
    then show ?thesis by (rule "3.IH"(1) [OF None])
  next
    case (Some x2)
    obtain m c1 where x2: "x2 = (m, c1)" by (cases x2)
    note re = Some [unfolded x2]
    note s1 = TYPE_RE_suffix [OF re]
    show ?thesis
    proof (cases m)
      case (Builtin_type k)
      with "3.prems" show ?thesis by (subst (asm) empty_nested_in_type.simps) (simp add: re)
    next
      case (Qualified_type q)
      from "3.prems" have "empty_nested_in_type c1"
        by (subst (asm) empty_nested_in_type.simps) (simp add: re Qualified_type)
      from "3.IH"(2) [OF re refl Qualified_type this] have "has_empty_nested c1" .
      with s1 show ?thesis by (rule has_empty_nested_suffix)
    next
      case Template_param
      with "3.prems" show ?thesis by (subst (asm) empty_nested_in_type.simps) (simp add: re)
    next
      case (Indirect_type q)
      from "3.prems" have "empty_nested_in_type c1"
        by (subst (asm) empty_nested_in_type.simps) (simp add: re Indirect_type)
      from "3.IH"(3) [OF re refl Indirect_type this] have "has_empty_nested c1" .
      with s1 show ?thesis by (rule has_empty_nested_suffix)
    next
      case Expr_primary
      from "3.prems" have "empty_nested_in_expr_primary c1"
        by (subst (asm) empty_nested_in_type.simps) (simp add: re Expr_primary)
      from "3.IH"(4) [OF re refl Expr_primary this] have "has_empty_nested c1" .
      with s1 show ?thesis by (rule has_empty_nested_suffix)
    qed
  qed
next
  case (4 cursor)
  show ?case
  proof (cases "EXPR_PRIMARY_RE cursor")
    case None
    with "4.prems" show ?thesis by (subst (asm) empty_nested_in_expr_primary.simps) simp
  next
    case (Some x2)
    obtain m c1 where x2: "x2 = (m, c1)" by (cases x2)
    note re = Some [unfolded x2]
    from EXPR_PRIMARY_RE_Some [OF re] have s1: "suffix c1 cursor" by (simp add: suffix_ConsI)
    show ?thesis
    proof (cases m)
      case Mangled_name
      show ?thesis
      proof (cases "advance_until ''E'' c1")
        case None
        with "4.prems" show ?thesis
          by (subst (asm) empty_nested_in_expr_primary.simps) (simp add: re Mangled_name)
      next
        case (Some x)
        obtain t c2 where x: "x = (t, c2)" by (cases x)
        note au = Some [unfolded x]
        from "4.prems" have "empty_nested_in_mangled_name t"
          by (subst (asm) empty_nested_in_expr_primary.simps) (simp add: re Mangled_name au)
        from "4.IH"(1) [OF re refl Mangled_name au refl this] have "has_empty_nested t" .
        then have "CHR ''E'' \<in> set t" by (rule has_empty_nested_E)
        with advance_until_text [OF au] show ?thesis by simp
      qed
    next
      case Literal_value
      from "4.prems" have "empty_nested_in_type c1"
        by (subst (asm) empty_nested_in_expr_primary.simps) (simp add: re Literal_value)
      from "4.IH"(2) [OF re refl Literal_value this] have "has_empty_nested c1" .
      with s1 show ?thesis by (rule has_empty_nested_suffix)
    qed
  qed
next
  case (5 cursor)
  show ?case
  proof (cases "SPECIAL_RE cursor")
    case None
    with "5.prems" show ?thesis by (subst (asm) empty_nested_in_special.simps) simp
  next
    case (Some x2)
    obtain k c1 where x2: "x2 = (k, c1)" by (cases x2)
    note re = Some [unfolded x2]
    from SPECIAL_RE_Some [OF re] have s1: "suffix c1 cursor" by simp
    from "5.prems" have "empty_nested_in_type c1"
      by (subst (asm) empty_nested_in_special.simps) (simp add: re)
    from "5.IH" [OF re refl this] have "has_empty_nested c1" .
    with s1 show ?thesis by (rule has_empty_nested_suffix)
  qed
next
  case (6 cursor)
  show ?case
  proof (cases "MANGLED_NAME_RE cursor")
    case None
    with "6.prems" show ?thesis by (subst (asm) empty_nested_in_mangled_name.simps) simp
  next
    case (Some c1)
    from MANGLED_NAME_RE_Some [OF Some] have s1: "suffix c1 cursor" by (simp add: suffix_def)
    show ?thesis
    proof (cases "empty_nested_in_special c1")
      case True
      from "6.IH"(1) [OF Some True] have "has_empty_nested c1" .
      with s1 show ?thesis by (rule has_empty_nested_suffix)
    next
      case False
      show ?thesis
      proof (cases "parse_special c1")
        case (Inl e)
        with "6.prems" False show ?thesis
          by (subst (asm) empty_nested_in_mangled_name.simps) (simp add: Some)
      next
        case (Inr b)
        obtain special c2 where b: "b = (special, c2)" by (cases b)
        note d = Inr [unfolded b]
        from parse_consumes(5) [of c1] d have s2: "suffix c2 c1" by simp
        then have s2': "suffix c2 cursor" using s1 by (rule suffix_order.trans)
        show ?thesis
        proof (cases "special = PyNone")
          case sp: False
          with "6.prems" False show ?thesis
            by (subst (asm) empty_nested_in_mangled_name.simps) (simp add: Some d)
        next
          case sp: True
          then have nn: "\<not> special \<noteq> PyNone" by simp
          show ?thesis
          proof (cases "empty_nested_in_name c2")
            case True
            from "6.IH"(2) [OF Some False d refl nn True] have "has_empty_nested c2" .
            with s2' show ?thesis by (rule has_empty_nested_suffix)
          next
            case ne: False
            show ?thesis
            proof (cases "parse_name c2")
              case (Inl e)
              with "6.prems" False sp ne show ?thesis
                by (subst (asm) empty_nested_in_mangled_name.simps) (simp add: Some d)
            next
              case (Inr b')
              obtain name c3 where b': "b' = (name, c3)" by (cases b')
              note d' = Inr [unfolded b']
              from "6.prems" False sp ne have n: "name \<noteq> PyNone"
                and e: "empty_nested_in_arg_types c3"
                by (subst (asm) empty_nested_in_mangled_name.simps,
                    simp add: Some d d' split: if_splits)+
              from "6.IH"(3) [OF Some False d refl nn ne d' refl n e]
              have h: "has_empty_nested c3" .
              from parse_consumes(1) [of c2] d' have "suffix c3 c2" by simp
              then have "suffix c3 cursor" using s2' by (rule suffix_order.trans)
              then show ?thesis using h by (rule has_empty_nested_suffix)
            qed
          qed
        qed
      qed
    qed
  qed
next
  case (7 cursor)
  from "7.prems" have ne: "\<not> at_end cursor"
    by (subst (asm) empty_nested_in_arg_types.simps) (simp split: if_splits)
  show ?case
  proof (cases "empty_nested_in_type cursor")
    case True
    then show ?thesis by (rule "7.IH"(1) [OF ne])
  next
    case False
    from "7.prems" ne False obtain ty c1 where d: "parse_type cursor = Inr (ty, c1)"
      and n: "ty \<noteq> PyNone" and e: "empty_nested_in_arg_types c1"
      by (subst (asm) empty_nested_in_arg_types.simps) (auto split: sum.splits if_splits)
    from "7.IH"(2) [OF ne False d refl n e] have h: "has_empty_nested c1" .
    from parse_consumes(3) [of cursor] d have "suffix c1 cursor" by simp
    then show ?thesis using h by (rule has_empty_nested_suffix)
  qed
next
  case (8 fn cursor)
  let ?call = "case fn of Fn_parse_name \<Rightarrow> parse_name cursor | Fn_parse_type \<Rightarrow> parse_type cursor"
  let ?enters = "case fn of
      Fn_parse_name \<Rightarrow> empty_nested_in_name cursor
    | Fn_parse_type \<Rightarrow> empty_nested_in_type cursor"
  from "8.prems" have no: "accept ''E'' cursor = None"
    by (subst (asm) empty_nested_in_until_end.simps) (simp split: option.splits)
  show ?case
  proof (cases ?enters)
    case True
    then show ?thesis using "8.IH"(1) [OF no] "8.IH"(2) [OF no] by (cases fn) simp_all
  next
    case False
    from "8.prems" False obtain node c1 where d: "?call = Inr (node, c1)"
      and n: "\<not> (node = PyNone \<or> at_end c1)" and e: "empty_nested_in_until_end fn c1"
      by (subst (asm) empty_nested_in_until_end.simps)
        (auto simp: no split: sum.splits if_splits)
    from "8.IH"(3) [OF no False d refl n e] have h: "has_empty_nested c1" .
    have "consumes cursor ?call"
      using parse_consumes(1) [of cursor] parse_consumes(3) [of cursor] by (cases fn) simp_all
    with d have "suffix c1 cursor" by simp
    then show ?thesis using h by (rule has_empty_nested_suffix)
  qed
qed

lemma text_pattern_not_entered:
  "has_empty_nested ''_Z4LINEv'' \<and> \<not> empty_nested_in_mangled_name ''_Z4LINEv'' \<and>
   has_empty_nested ''_ZN3foo3RUNEv'' \<and> \<not> empty_nested_in_mangled_name ''_ZN3foo3RUNEv''"
  by code_simp


lemma parse_all_built:
  assumes "strict \<longrightarrow> \<not> empty_nested_in_mangled_name raw" and "parse raw = Inr node"
  shows "all_nodes (built strict) node"
  using parse_built(6) [OF assms(1)] assms(2)
  by (auto simp: parse_def split: sum.splits)

lemma nested_name_closed_at_once:
  assumes "accept ''E'' c = Some c1"
  shows "parse_name_dispatch (Nested_name cv rf) c =
           Inr (handle_indirect rf (handle_cv cv (QualName [])), c1)"
  by (subst parse_name_dispatch.simps, subst parse_until_end.simps)
    (simp add: assms list_node_def)

text \<open>
  The argument types that follow the name in \<^verbatim>\<open>_parse_mangled_name\<close>: \<open>trailing_types c ts\<close>
  says that from the cursor \<open>c\<close> the production \<^verbatim>\<open>_parse_type\<close>, called again and again until
  the end of the text, returns the nodes \<open>ts\<close>, none of them \<^verbatim>\<open>None\<close>, in this order.
\<close>

fun trailing_types :: "cursor \<Rightarrow> node list \<Rightarrow> bool" where
  "trailing_types c [] = at_end c"
| "trailing_types c (t # ts) =
     (\<not> at_end c \<and>
      (case parse_type c of
         Inl e \<Rightarrow> False
       | Inr (ty, c') \<Rightarrow> ty = t \<and> ty \<noteq> PyNone \<and> trailing_types c' ts))"

lemma parse_arg_types_trailing:
  "trailing_types c ts \<Longrightarrow> parse_arg_types c acc = Inr (Some (acc @ ts), [])"
proof (induction ts arbitrary: c acc)
  case Nil
  then show ?case by (subst parse_arg_types.simps) (simp add: at_end_def)
next
  case (Cons t ts)
  from Cons.prems obtain c' where ne: "\<not> at_end c" and ty: "parse_type c = Inr (t, c')"
    and t: "t \<noteq> PyNone" and rest: "trailing_types c' ts"
    by (auto split: sum.splits)
  from Cons.IH [OF rest, of "acc @ [t]"] ne ty t show ?case
    by (subst parse_arg_types.simps) simp
qed

text \<open>
  Claim C6: every \<^verbatim>\<open>qual_name\<close> node in an AST returned by a successful parse has at
  least one element.

  \<^verbatim>\<open>_parse_until_end\<close> tests \<^verbatim>\<open>cursor.accept('E')\<close> before it calls the production, so a
  nested name that is closed at once gives \<^verbatim>\<open>Node('qual_name', ())\<close>: \<^verbatim>\<open>parse('_ZNE')\<close> returns
  a \<^verbatim>\<open>qual_name\<close> node without elements, and \<^verbatim>\<open>parse('_ZNKE')\<close> wraps one in a \<^verbatim>\<open>cv_qual\<close>
  node.
\<close>

theorem empty_nested_name_counterexample:
  "parse ''_ZNE'' = Inr (QualName []) \<and> \<not> all_nodes qual_name_nonempty (QualName []) \<and>
   parse ''_ZNKE'' = Inr (CvQual (QualName []) {''const''}) \<and>
   empty_nested_in_mangled_name ''_ZNE'' \<and> empty_nested_in_mangled_name ''_ZNKE''"
  by code_simp

text \<open>
  Claim C6, amended: every \<^verbatim>\<open>qual_name\<close> node in the AST returned by a successful parse
  has at least one element, unless the parse enters a nested name that is closed at once,
  which is the branch \<^verbatim>\<open>nested_name\<close> of \<^verbatim>\<open>_parse_name\<close> taken where \<^verbatim>\<open>N\<close>, the qualifier letters
  and the optional \<^verbatim>\<open>R\<close> or \<^verbatim>\<open>O\<close> are followed by \<^verbatim>\<open>E\<close>.

  The condition is on the calls of the productions and not on the text: the letters \<^verbatim>\<open>NE\<close>
  inside a source name, as in \<^verbatim>\<open>_ZN3foo3RUNEv\<close> and \<^verbatim>\<open>_Z4LINEv\<close>, are not a nested name. The
  branch taken at such a place returns the \<^verbatim>\<open>qual_name\<close> node without elements, which is
  \<open>nested_name_closed_at_once\<close>; every other \<^verbatim>\<open>qual_name\<close> node, of the table of the standard
  names, of the prefix \<^verbatim>\<open>St\<close>, of a name with its template arguments and of a nested name
  with a component, has an element.
\<close>

theorem qual_name_never_empty:
  assumes "\<not> empty_nested_in_mangled_name raw" and "parse raw = Inr node"
  shows "all_nodes qual_name_nonempty node"
proof -
  from assms(1) have "True \<longrightarrow> \<not> empty_nested_in_mangled_name raw" by simp
  then have "all_nodes (built True) node" using assms(2) by (rule parse_all_built)
  then show ?thesis by (rule all_nodes_mono [rotated]) (simp add: built_def)
qed

theorem qual_name_never_empty_witness:
  "\<not> empty_nested_in_mangled_name ''_ZN3foo3RUNEv'' \<and>
   parse ''_ZN3foo3RUNEv'' = Inr (Function (QualName [Name ''foo'', Name ''RUN'']) [Name ''void'']) \<and>
   all_nodes qual_name_nonempty (Function (QualName [Name ''foo'', Name ''RUN'']) [Name ''void'']) \<and>
   \<not> empty_nested_in_mangled_name ''_Z4LINEv'' \<and>
   parse ''_Z4LINEv'' = Inr (Function (Name ''LINE'') [Name ''void'']) \<and>
   all_nodes qual_name_nonempty (Function (Name ''LINE'') [Name ''void'']) \<and>
   \<not> empty_nested_in_mangled_name ''_ZNKSt3fooIiE3barEv'' \<and>
   parse ''_ZNKSt3fooIiE3barEv'' =
     Inr (Function
            (CvQual (QualName [QualName [Name ''std'', Name ''foo'', TplArgs [Name ''int'']], Name ''bar''])
               {''const''})
            [Name ''void''])"
proof -
  have h: "\<not> empty_nested_in_mangled_name ''_ZN3foo3RUNEv''" by code_simp
  have p: "parse ''_ZN3foo3RUNEv'' = Inr (Function (QualName [Name ''foo'', Name ''RUN'']) [Name ''void''])"
    by code_simp
  have h': "\<not> empty_nested_in_mangled_name ''_Z4LINEv''" by code_simp
  have p': "parse ''_Z4LINEv'' = Inr (Function (Name ''LINE'') [Name ''void''])"
    by code_simp
  have h'': "\<not> empty_nested_in_mangled_name ''_ZNKSt3fooIiE3barEv''" by code_simp
  have p'': "parse ''_ZNKSt3fooIiE3barEv'' =
     Inr (Function
            (CvQual (QualName [QualName [Name ''std'', Name ''foo'', TplArgs [Name ''int'']], Name ''bar''])
               {''const''})
            [Name ''void''])"
    by code_simp
  from qual_name_never_empty [OF h p] qual_name_never_empty [OF h' p'] h p h' p' h'' p''
  show ?thesis by blast
qed

text \<open>
  Claim C7: in the mangled-name production, once the name is parsed, no trailing type
  gives the name node itself as the result, and one or more trailing types give a
  \<^verbatim>\<open>function\<close> node of this name and of the argument types in the order in which they were
  read; no \<^verbatim>\<open>function\<close> node is built with an empty argument list.

  The first part is about \<^verbatim>\<open>_parse_mangled_name\<close> on a text that starts with \<^verbatim>\<open>_Z\<close>, is not a
  special name, and has a name followed by the types \<open>tys\<close> up to its end. The second
  part holds of every node of every AST that \<^verbatim>\<open>parse\<close> returns, also of the function nodes
  of the mangled names inside template arguments.
\<close>

theorem mangled_name_function_node:
  "(MANGLED_NAME_RE c = Some c1 \<and> parse_special c1 = Inr (PyNone, c2) \<and>
    parse_name c2 = Inr (name, c3) \<and> name \<noteq> PyNone \<and> trailing_types c3 tys \<longrightarrow>
      parse_mangled_name c = Inr (if tys = [] then name else Function name tys, []) \<and>
      parse c = Inr (if tys = [] then name else Function name tys)) \<and>
   (parse raw = Inr node \<longrightarrow> all_nodes function_has_args node)"
proof (intro conjI impI)
  assume a: "MANGLED_NAME_RE c = Some c1 \<and> parse_special c1 = Inr (PyNone, c2) \<and>
    parse_name c2 = Inr (name, c3) \<and> name \<noteq> PyNone \<and> trailing_types c3 tys"
  then have args: "parse_arg_types c3 [] = Inr (Some tys, [])"
    using parse_arg_types_trailing [of c3 tys "[]"] by simp
  show m: "parse_mangled_name c = Inr (if tys = [] then name else Function name tys, [])"
    using a args by (subst parse_mangled_name.simps) simp
  show "parse c = Inr (if tys = [] then name else Function name tys)"
    unfolding parse_def m by simp
next
  assume p: "parse raw = Inr node"
  have "False \<longrightarrow> \<not> empty_nested_in_mangled_name raw" by simp
  then have "all_nodes (built False) node" using p by (rule parse_all_built)
  then show "all_nodes function_has_args node"
    by (rule all_nodes_mono [rotated]) (simp add: built_def)
qed

theorem mangled_name_function_node_witness:
  "MANGLED_NAME_RE ''_Z1fPic'' = Some ''1fPic'' \<and> parse_special ''1fPic'' = Inr (PyNone, ''1fPic'') \<and>
   parse_name ''1fPic'' = Inr (Name ''f'', ''Pic'') \<and> Name ''f'' \<noteq> PyNone \<and>
   trailing_types ''Pic'' [Pointer (Name ''int''), Name ''char''] \<and>
   parse ''_Z1fPic'' = Inr (Function (Name ''f'') [Pointer (Name ''int''), Name ''char'']) \<and>
   all_nodes function_has_args (Function (Name ''f'') [Pointer (Name ''int''), Name ''char'']) \<and>
   MANGLED_NAME_RE ''_Z1f'' = Some ''1f'' \<and> parse_special ''1f'' = Inr (PyNone, ''1f'') \<and>
   parse_name ''1f'' = Inr (Name ''f'', []) \<and> trailing_types [] [] \<and>
   parse ''_Z1f'' = Inr (Name ''f'')"
proof -
  have h: "MANGLED_NAME_RE ''_Z1fPic'' = Some ''1fPic'' \<and> parse_special ''1fPic'' = Inr (PyNone, ''1fPic'') \<and>
      parse_name ''1fPic'' = Inr (Name ''f'', ''Pic'') \<and> Name ''f'' \<noteq> PyNone \<and>
      trailing_types ''Pic'' [Pointer (Name ''int''), Name ''char'']"
    by code_simp
  have k: "MANGLED_NAME_RE ''_Z1f'' = Some ''1f'' \<and> parse_special ''1f'' = Inr (PyNone, ''1f'') \<and>
      parse_name ''1f'' = Inr (Name ''f'', []) \<and> Name ''f'' \<noteq> PyNone \<and> trailing_types [] []"
    by code_simp
  note t = mangled_name_function_node
    [of "''_Z1fPic''" "''1fPic''" "''1fPic''" "Name ''f''" "''Pic''" "[Pointer (Name ''int''), Name ''char'']"
        "''_Z1fPic''" "Function (Name ''f'') [Pointer (Name ''int''), Name ''char'']"]
  note u = mangled_name_function_node
    [of "''_Z1f''" "''1f''" "''1f''" "Name ''f''" "[]" "[]" "''_Z1f''" "Name ''f''"]
  from t h have 1: "parse ''_Z1fPic'' = Inr (Function (Name ''f'') [Pointer (Name ''int''), Name ''char''])"
    by simp
  from t 1 have 2: "all_nodes function_has_args (Function (Name ''f'') [Pointer (Name ''int''), Name ''char''])"
    by blast
  from u k have 3: "parse ''_Z1f'' = Inr (Name ''f'')" by simp
  from h k 1 2 3 show ?thesis by blast
qed

text \<open>
  Claim C10: every \<^verbatim>\<open>cv_qual\<close> node produced by \<^verbatim>\<open>parse\<close> carries a non-empty qualifier set:
  when the qualifier letters of a nested-name or qualified-type production contribute no
  qualifier, the node is returned as it is and not wrapped in a \<^verbatim>\<open>cv_qual\<close> node with an
  empty set.

  The first part holds of every node of every AST that \<^verbatim>\<open>parse\<close> returns. The other two
  are about \<^verbatim>\<open>_handle_cv\<close>, the only place where a \<^verbatim>\<open>cv_qual\<close> node is built: without a letter
  among \<^verbatim>\<open>r\<close>, \<^verbatim>\<open>V\<close> and \<^verbatim>\<open>K\<close> it returns its argument, and with one it wraps it with a set that
  is not empty.
\<close>

theorem cv_qual_never_empty:
  "(parse raw = Inr node \<longrightarrow> all_nodes cv_qual_nonempty node) \<and>
   (list_all (\<lambda>c. \<not> is_cv_letter c) letters \<longrightarrow> handle_cv letters n = n) \<and>
   (\<not> list_all (\<lambda>c. \<not> is_cv_letter c) letters \<longrightarrow>
      (\<exists>qual. qual \<noteq> {} \<and> handle_cv letters n = CvQual n qual))"
proof (intro conjI impI)
  assume p: "parse raw = Inr node"
  have "False \<longrightarrow> \<not> empty_nested_in_mangled_name raw" by simp
  then have "all_nodes (built False) node" using p by (rule parse_all_built)
  then show "all_nodes cv_qual_nonempty node"
    by (rule all_nodes_mono [rotated]) (simp add: built_def)
next
  assume "list_all (\<lambda>c. \<not> is_cv_letter c) letters"
  then have "CHR ''r'' \<notin> set letters" "CHR ''V'' \<notin> set letters" "CHR ''K'' \<notin> set letters"
    by (auto simp: list_all_iff is_cv_letter_def)
  then show "handle_cv letters n = n" by (simp add: handle_cv_def)
next
  assume "\<not> list_all (\<lambda>c. \<not> is_cv_letter c) letters"
  then have "CHR ''r'' \<in> set letters \<or> CHR ''V'' \<in> set letters \<or> CHR ''K'' \<in> set letters"
    by (auto simp: list_all_iff is_cv_letter_def)
  then show "\<exists>qual. qual \<noteq> {} \<and> handle_cv letters n = CvQual n qual"
    by (auto simp: handle_cv_def Let_def)
qed

theorem cv_qual_never_empty_witness:
  "parse ''_ZN1a1bERKi'' =
     Inr (Function (QualName [Name ''a'', Name ''b'']) [LValue (CvQual (Name ''int'') {''const''})]) \<and>
   all_nodes cv_qual_nonempty
     (Function (QualName [Name ''a'', Name ''b'']) [LValue (CvQual (Name ''int'') {''const''})]) \<and>
   list_all (\<lambda>c. \<not> is_cv_letter c) [] \<and>
   handle_cv [] (QualName [Name ''a'', Name ''b'']) = QualName [Name ''a'', Name ''b''] \<and>
   \<not> list_all (\<lambda>c. \<not> is_cv_letter c) ''K'' \<and>
   handle_cv ''K'' (Name ''int'') = CvQual (Name ''int'') {''const''}"
proof -
  have p: "parse ''_ZN1a1bERKi'' =
      Inr (Function (QualName [Name ''a'', Name ''b'']) [LValue (CvQual (Name ''int'') {''const''})])"
    by code_simp
  have k: "\<not> list_all (\<lambda>c. \<not> is_cv_letter c) ''K''" by (simp add: is_cv_letter_def)
  have v: "handle_cv ''K'' (Name ''int'') = CvQual (Name ''int'') {''const''}"
    by (simp add: handle_cv_def)
  have e: "list_all (\<lambda>c. \<not> is_cv_letter c) []" by simp
  note t = cv_qual_never_empty
    [of "''_ZN1a1bERKi''"
        "Function (QualName [Name ''a'', Name ''b'']) [LValue (CvQual (Name ''int'') {''const''})]"
        "[]" "QualName [Name ''a'', Name ''b'']"]
  from t p have 1: "all_nodes cv_qual_nonempty
      (Function (QualName [Name ''a'', Name ''b'']) [LValue (CvQual (Name ''int'') {''const''})])"
    by blast
  from t e have 2: "handle_cv [] (QualName [Name ''a'', Name ''b'']) = QualName [Name ''a'', Name ''b'']"
    by blast
  from p 1 e 2 k v show ?thesis by blast
qed
end
